theory Spec2Isabelle
  imports Main
begin

section \<open>ESMplus core helper: configuration, resilient request client, worker pool\<close>

text \<open>
  A shallow embedding of \<^verbatim>\<open>src/esmplus-core.js\<close> (version 1.2.2, lines 1 to 342):
  the \<^verbatim>\<open>CONFIG\<close> object with \<^verbatim>\<open>setConfig\<close> and \<^verbatim>\<open>getConfig\<close>, the retry loop of
  \<^verbatim>\<open>postJSON\<close>, and the worker pool of \<^verbatim>\<open>runWithConcurrency\<close>. Version 1.2.1 of the
  repository has the same code for these functions; the copy of version 1.0.0 that
  follows line 342 is not modelled.

  JavaScript numbers are modelled as \<^typ>\<open>int\<close> (the data model declares every
  numeric setting an integer); strings are byte lists (UTF-8). Request headers and
  token collection, and the panel code of the file, are not modelled: they touch
  neither the configuration nor the control flow of the two functions.
\<close>

subsection \<open>Values and the configuration object\<close>

text \<open>The values the configuration holds: numbers and booleans.\<close>

datatype jsval = JNum int | JBool bool

text \<open>JavaScript's conversion of a value to a number, as comparisons and timers apply it.\<close>

fun to_number :: "jsval \<Rightarrow> int" where
  "to_number (JNum n) = n"
| "to_number (JBool b) = (if b then 1 else 0)"

text \<open>
  \<^verbatim>\<open>CONFIG\<close> is an object with five properties that are never deleted; every other own
  property that \<^verbatim>\<open>Object.assign\<close> may add to it lives in \<open>others\<close>.
\<close>

record config =
  THROTTLE_MS :: jsval
  CONCURRENCY :: jsval
  USE_BATCH :: jsval
  TIMEOUT_MS :: jsval
  MAX_RETRY :: jsval
  others :: "string \<Rightarrow> jsval option"

text \<open>An object literal passed by a caller: its own enumerable properties.\<close>

type_synonym obj = "string \<Rightarrow> jsval option"

definition CONFIG :: config where
  "CONFIG = \<lparr>THROTTLE_MS = JNum 0, CONCURRENCY = JNum 6, USE_BATCH = JBool False,
     TIMEOUT_MS = JNum 10000, MAX_RETRY = JNum 4, others = Map.empty\<rparr>"

definition config_keys :: "string list" where
  "config_keys = [''THROTTLE_MS'', ''CONCURRENCY'', ''USE_BATCH'', ''TIMEOUT_MS'', ''MAX_RETRY'']"

text \<open>One property of the source object copied onto the target, or the old value kept.\<close>

definition assigned :: "obj \<Rightarrow> string \<Rightarrow> jsval \<Rightarrow> jsval" where
  "assigned c k old = (case c k of Some v \<Rightarrow> v | None \<Rightarrow> old)"

text \<open>
  \<^verbatim>\<open>setConfig(c={}) { Object.assign(CONFIG, c); }\<close>: every own property of \<open>c\<close> is
  written to \<^verbatim>\<open>CONFIG\<close> by an ordinary assignment \<^verbatim>\<open>CONFIG[k] = c[k]\<close>, whatever its
  name. A property named like one of the five settings replaces it; any other property
  is added to, or replaced among, the others. The one exception is the key
  \<^verbatim>\<open>__proto__\<close>: there the assignment runs the setter that \<^verbatim>\<open>CONFIG\<close> inherits from
  \<^verbatim>\<open>Object.prototype\<close>, which ignores a number or a boolean, so no property is stored
  and \<^verbatim>\<open>CONFIG\<close> stays as it was.
\<close>

definition setConfig :: "obj \<Rightarrow> config \<Rightarrow> config" where
  "setConfig c C =
     \<lparr>THROTTLE_MS = assigned c ''THROTTLE_MS'' (THROTTLE_MS C),
      CONCURRENCY = assigned c ''CONCURRENCY'' (CONCURRENCY C),
      USE_BATCH = assigned c ''USE_BATCH'' (USE_BATCH C),
      TIMEOUT_MS = assigned c ''TIMEOUT_MS'' (TIMEOUT_MS C),
      MAX_RETRY = assigned c ''MAX_RETRY'' (MAX_RETRY C),
      others = (\<lambda>k. if k \<in> set config_keys then None
                     else if k = ''__proto__'' then others C k
                     else (case c k of Some v \<Rightarrow> Some v | None \<Rightarrow> others C k))\<rparr>"

text \<open>\<^verbatim>\<open>getConfig() { return { ...CONFIG }; }\<close>: a fresh object with every own property.\<close>

definition getConfig :: "config \<Rightarrow> obj" where
  "getConfig C = (\<lambda>k.
     if k = ''THROTTLE_MS'' then Some (THROTTLE_MS C)
     else if k = ''CONCURRENCY'' then Some (CONCURRENCY C)
     else if k = ''USE_BATCH'' then Some (USE_BATCH C)
     else if k = ''TIMEOUT_MS'' then Some (TIMEOUT_MS C)
     else if k = ''MAX_RETRY'' then Some (MAX_RETRY C)
     else others C k)"

subsection \<open>Exceptions and strings\<close>

text \<open>A thrown value: an \<^verbatim>\<open>Error\<close> or \<^verbatim>\<open>DOMException\<close> with its name and message.\<close>

datatype exn = Exn (exn_name: string) (exn_message: string)

text \<open>\<^verbatim>\<open>String(e)\<close>, as \<^verbatim>\<open>Error.prototype.toString\<close> builds it.\<close>

definition String_of :: "exn \<Rightarrow> string" where
  "String_of e =
     (if exn_name e = [] then exn_message e
      else if exn_message e = [] then exn_name e
      else exn_name e @ '': '' @ exn_message e)"

text \<open>Case folding of the regular expression flag \<^verbatim>\<open>i\<close>: ASCII letters only.\<close>

definition lower :: "char \<Rightarrow> char" where
  "lower c =
     (case map_of (zip ''ABCDEFGHIJKLMNOPQRSTUVWXYZ'' ''abcdefghijklmnopqrstuvwxyz'') c of
        Some l \<Rightarrow> l
      | None \<Rightarrow> c)"

fun starts_with :: "string \<Rightarrow> string \<Rightarrow> bool" where
  "starts_with [] s = True"
| "starts_with (p # ps) [] = False"
| "starts_with (p # ps) (c # cs) = (p = c \<and> starts_with ps cs)"

fun contains :: "string \<Rightarrow> string \<Rightarrow> bool" where
  "contains p [] = starts_with p []"
| "contains p (c # cs) = (starts_with p (c # cs) \<or> contains p cs)"

text \<open>\<^verbatim>\<open>/network|Failed to fetch/i.test(s)\<close>\<close>

definition network_pattern :: "string \<Rightarrow> bool" where
  "network_pattern s =
     (contains ''network'' (map lower s) \<or> contains ''failed to fetch'' (map lower s))"

text \<open>The decimal digits of a number, as a template literal prints it.\<close>

definition digit :: "nat \<Rightarrow> char" where
  "digit n = ''0123456789'' ! n"

fun decimal :: "nat \<Rightarrow> string" where
  "decimal n = (if n < 10 then [digit n] else decimal (n div 10) @ [digit (n mod 10)])"

declare decimal.simps [simp del]

text \<open>The fallback text of the error message, in UTF-8 (two Korean words: request failed).\<close>

definition request_failed :: string where
  "request_failed =
     [CHR 0xEC, CHR 0x9A, CHR 0x94, CHR 0xEC, CHR 0xB2, CHR 0xAD, CHR 0x20,
      CHR 0xEC, CHR 0x8B, CHR 0xA4, CHR 0xED, CHR 0x8C, CHR 0xA8]"

subsection \<open>The resilient request client: \<^verbatim>\<open>postJSON\<close>\<close>

text \<open>
  What \<^verbatim>\<open>fetch\<close> resolves with: \<^verbatim>\<open>res.ok\<close>, \<^verbatim>\<open>res.status\<close>, the outcome of
  \<^verbatim>\<open>res.text()\<close> (\<open>None\<close> when it rejects) and the outcome of \<^verbatim>\<open>res.json()\<close>.
\<close>

record 'j response =
  res_ok :: bool
  res_status :: nat
  res_text :: "string option"
  res_json :: "exn + 'j"

text \<open>
  What the network does with one request: it responds or fails after some
  milliseconds, or never settles.
\<close>

datatype 'j net = Responds nat "'j response" | Fails nat exn | Hangs

text \<open>The exception of an aborted \<^verbatim>\<open>fetch\<close>; only its name is read by the code.\<close>

definition AbortError :: exn where
  "AbortError = Exn ''AbortError'' ''The user aborted a request.''"

text \<open>
  \<^verbatim>\<open>fetch\<close> under the guard \<^verbatim>\<open>setTimeout(() => controller.abort(), TIMEOUT_MS)\<close>:
  a request that has not settled before the timer fires is aborted.
\<close>

definition guarded_fetch :: "int \<Rightarrow> 'j net \<Rightarrow> exn + 'j response" where
  "guarded_fetch timeout_ms n =
     (case n of
        Responds ms r \<Rightarrow> if int ms < timeout_ms then Inr r else Inl AbortError
      | Fails ms e \<Rightarrow> if int ms < timeout_ms then Inl e else Inl AbortError
      | Hangs \<Rightarrow> Inl AbortError)"

text \<open>How one iteration of the loop ends.\<close>

datatype 'j flow = Returned 'j | Thrown exn | Continue int

text \<open>\<^verbatim>\<open>new Error(`HTTP ${status}: ${text || '...'}`)\<close>\<close>

definition http_error :: "nat \<Rightarrow> string \<Rightarrow> exn" where
  "http_error status txt =
     Exn ''Error'' (''HTTP '' @ decimal status @ '': '' @ (if txt = [] then request_failed else txt))"

definition retryable_status :: "nat \<Rightarrow> bool" where
  "retryable_status status = (status = 429 \<or> (500 \<le> status \<and> status < 600))"

text \<open>
  The \<^verbatim>\<open>try\<close> block (lines 92 to 109). \<open>Inl e\<close>: \<open>e\<close> was thrown inside the block and
  goes to the \<^verbatim>\<open>catch\<close>. \<^verbatim>\<open>return res.json()\<close> hands the promise over without
  awaiting it, so a parse failure rejects \<^verbatim>\<open>postJSON\<close> without passing the
  \<^verbatim>\<open>catch\<close>.
\<close>

definition try_block :: "int \<Rightarrow> int \<Rightarrow> int \<Rightarrow> 'j net \<Rightarrow> exn + 'j flow" where
  "try_block timeout_ms max_retry attempt n =
     (case guarded_fetch timeout_ms n of
        Inl e \<Rightarrow> Inl e
      | Inr res \<Rightarrow>
          if res_ok res then
            (case res_json res of Inr v \<Rightarrow> Inr (Returned v) | Inl e \<Rightarrow> Inr (Thrown e))
          else
            let status = res_status res;
                txt = (case res_text res of Some t \<Rightarrow> t | None \<Rightarrow> [])
            in if retryable_status status \<and> attempt < max_retry
               then Inr (Continue (min 2000 (200 * 2 ^ nat (attempt - 1))))
               else Inl (http_error status txt))"

text \<open>The \<^verbatim>\<open>catch\<close> block (lines 110 to 118).\<close>

definition retriable :: "exn \<Rightarrow> bool" where
  "retriable e = (exn_name e = ''AbortError'' \<or> network_pattern (String_of e))"

definition catch_block :: "int \<Rightarrow> int \<Rightarrow> exn \<Rightarrow> 'j flow" where
  "catch_block max_retry attempt e =
     (if retriable e \<and> attempt < max_retry then Continue (300 * attempt) else Thrown e)"

definition iteration :: "int \<Rightarrow> int \<Rightarrow> int \<Rightarrow> 'j net \<Rightarrow> 'j flow" where
  "iteration timeout_ms max_retry attempt n =
     (case try_block timeout_ms max_retry attempt n of
        Inr f \<Rightarrow> f
      | Inl e \<Rightarrow> catch_block max_retry attempt e)"

text \<open>
  What the caller of \<^verbatim>\<open>postJSON\<close> observes, in order: \<open>Request a t\<close> is the \<^verbatim>\<open>fetch\<close>
  of attempt \<open>a\<close> under a guard of \<open>t\<close> ms, \<open>Sleep ms\<close> is \<^verbatim>\<open>await SLEEP(ms)\<close>.
\<close>

datatype action = Request int int | Sleep int

text \<open>
  How the \<^verbatim>\<open>async\<close> function completes: with the parsed body, with an exception,
  or by running off the end of the loop (the promise resolves with \<^verbatim>\<open>undefined\<close>).
\<close>

datatype 'j completion = Returns 'j | Throws exn | Falls_through

text \<open>
  The environment of one attempt: the calls of \<^verbatim>\<open>setConfig\<close> that other code makes
  while the attempt is suspended, and what the network does with the request.
\<close>

record 'j exchange =
  meanwhile :: "obj list"
  wire :: "'j net"

text \<open>
  The loop of lines 88 to 119, from \<open>attempt\<close> on. The state is the live
  \<^verbatim>\<open>CONFIG\<close> and the actions so far; \<open>timeout_ms\<close> and \<open>max_retry\<close> are the
  constants destructured on line 76.
\<close>

function postJSON_loop ::
  "int \<Rightarrow> int \<Rightarrow> (int \<Rightarrow> 'j exchange) \<Rightarrow> int \<Rightarrow> config \<times> action list
     \<Rightarrow> (config \<times> action list) \<times> 'j completion" where
  "postJSON_loop timeout_ms max_retry env attempt (C, acts) =
     (if attempt \<le> max_retry then
        let C' = fold setConfig (meanwhile (env attempt)) C;
            acts' = acts @ [Request attempt timeout_ms]
        in (case iteration timeout_ms max_retry attempt (wire (env attempt)) of
              Returned v \<Rightarrow> ((C', acts'), Returns v)
            | Thrown e \<Rightarrow> ((C', acts'), Throws e)
            | Continue ms \<Rightarrow>
                postJSON_loop timeout_ms max_retry env (attempt + 1) (C', acts' @ [Sleep ms]))
      else ((C, acts), Falls_through))"
  by pat_completeness auto
termination
  by (relation "measure (\<lambda>(t, m, env, a, s). nat (m + 1 - a))") auto

declare postJSON_loop.simps [simp del]

text \<open>
  \<^verbatim>\<open>postJSON(url, payload, extraHeaders)\<close>: line 76 reads the two settings, then the
  loop starts at attempt 1.
\<close>

definition postJSON :: "config \<Rightarrow> (int \<Rightarrow> 'j exchange) \<Rightarrow> (config \<times> action list) \<times> 'j completion" where
  "postJSON C env =
     (let timeout_ms = to_number (TIMEOUT_MS C); max_retry = to_number (MAX_RETRY C)
      in postJSON_loop timeout_ms max_retry env 1 (C, []))"

subsection \<open>The bounded worker pool: \<^verbatim>\<open>runWithConcurrency\<close>\<close>

text \<open>
  An operation of the batch is a thunk returning a promise; the pool sees only how that
  promise settles.
\<close>

datatype 'a outcome = Fulfils 'a | Rejects exn

text \<open>
  A worker is suspended at \<^verbatim>\<open>await tasks[cur]()\<close> (line 131) or at
  \<^verbatim>\<open>await SLEEP(CONFIG.THROTTLE_MS)\<close> (line 132), or its promise has settled: fulfilled
  after the \<^verbatim>\<open>break\<close> of line 130, or rejected with the exception of its operation.
\<close>

datatype worker = Awaiting nat | Sleeping int | Finished | Crashed exn

text \<open>The promise that \<^verbatim>\<open>runWithConcurrency\<close> returns.\<close>

datatype 'a promise = Pending | Fulfilled 'a | Rejected exn

text \<open>
  The state shared by the workers: the live \<^verbatim>\<open>CONFIG\<close>, the cursor \<^verbatim>\<open>i\<close>, the array
  \<^verbatim>\<open>results\<close> (\<open>None\<close> is a hole of \<^verbatim>\<open>new Array(n)\<close>), the workers, and the promise of
  the call.
\<close>

record 'a pool =
  live :: config
  cursor :: nat
  results :: "'a option list"
  workers :: "worker list"
  join :: "'a option list promise"

text \<open>
  Lines 129 to 131 up to the \<^verbatim>\<open>await\<close>: \<^verbatim>\<open>const cur = i++\<close>, then the worker leaves
  the loop or starts operation \<open>cur\<close>. No suspension point lies in between.
\<close>

definition next_claim :: "'a outcome list \<Rightarrow> 'a pool \<Rightarrow> worker \<times> 'a pool" where
  "next_claim tasks s =
     (let cur = cursor s
      in (if cur \<ge> length tasks then Finished else Awaiting cur, s\<lparr>cursor := cur + 1\<rparr>))"

text \<open>\<^verbatim>\<open>Array.from\<close> calls the worker function, which runs up to its first \<^verbatim>\<open>await\<close>.\<close>

definition spawn :: "'a outcome list \<Rightarrow> 'a pool \<Rightarrow> 'a pool" where
  "spawn tasks s = (case next_claim tasks s of (w, s') \<Rightarrow> s'\<lparr>workers := workers s' @ [w]\<rparr>)"

text \<open>
  \<^verbatim>\<open>await Promise.all(workers); return results\<close>: the call rejects with the first
  rejection of a worker, and returns the array once every worker is fulfilled.
\<close>

definition all_finished :: "worker list \<Rightarrow> bool" where
  "all_finished ws = list_all (\<lambda>w. w = Finished) ws"

definition resume :: "'a outcome list \<Rightarrow> nat \<Rightarrow> 'a pool \<Rightarrow> 'a pool" where
  "resume tasks k s =
     (case next_claim tasks s of (w, s') \<Rightarrow>
        let ws = (workers s')[k := w]
        in s'\<lparr>workers := ws,
              join := (if join s' = Pending \<and> all_finished ws then Fulfilled (results s')
                       else join s')\<rparr>)"

definition crash :: "nat \<Rightarrow> exn \<Rightarrow> 'a pool \<Rightarrow> 'a pool" where
  "crash k e s =
     s\<lparr>workers := (workers s)[k := Crashed e],
       join := (if join s = Pending then Rejected e else join s)\<rparr>"

text \<open>
  What can happen while the call is suspended: the promise a worker awaits settles
  (its operation completes, or its throttle timer fires), or other code calls
  \<^verbatim>\<open>setConfig\<close>.
\<close>

datatype event = Settle nat | SetConfig obj

fun step :: "'a outcome list \<Rightarrow> event \<Rightarrow> 'a pool \<Rightarrow> 'a pool" where
  "step tasks (SetConfig c) s = s\<lparr>live := setConfig c (live s)\<rparr>"
| "step tasks (Settle k) s =
     (if k < length (workers s) then
        (case workers s ! k of
           Awaiting cur \<Rightarrow>
             (case tasks ! cur of
                Fulfils v \<Rightarrow>
                  let s' = s\<lparr>results := (results s)[cur := Some v]\<rparr>
                  in if to_number (THROTTLE_MS (live s')) > 0
                     then s'\<lparr>workers := (workers s')[k := Sleeping (to_number (THROTTLE_MS (live s')))]\<rparr>
                     else resume tasks k s'
              | Rejects e \<Rightarrow> crash k e s)
         | Sleeping ms \<Rightarrow> resume tasks k s
         | Finished \<Rightarrow> s
         | Crashed e \<Rightarrow> s)
      else s)"

definition run :: "'a outcome list \<Rightarrow> event list \<Rightarrow> 'a pool \<Rightarrow> 'a pool" where
  "run tasks evs s = fold (step tasks) evs s"

text \<open>
  \<^verbatim>\<open>runWithConcurrency(tasks, limit)\<close> up to its \<^verbatim>\<open>await\<close> (lines 123 to 135): the
  state in which the call suspends, or has already returned \<^verbatim>\<open>[]\<close>. An absent
  \<open>limit\<close> is \<open>None\<close>.
\<close>

definition runWithConcurrency :: "config \<Rightarrow> 'a outcome list \<Rightarrow> int option \<Rightarrow> 'a pool" where
  "runWithConcurrency C tasks limit =
     (if tasks = [] then
        \<lparr>live = C, cursor = 0, results = [], workers = [], join = Fulfilled []\<rparr>
      else
        let size = min (max 1 (case limit of Some l \<Rightarrow> l | None \<Rightarrow> to_number (CONCURRENCY C)))
                       (int (length tasks))
        in (spawn tasks ^^ nat size)
             \<lparr>live = C, cursor = 0, results = replicate (length tasks) None, workers = [],
              join = Pending\<rparr>)"

text \<open>The spec's \<open>clamp(x, lo, hi)\<close>.\<close>

definition clamp :: "int \<Rightarrow> int \<Rightarrow> int \<Rightarrow> int" where
  "clamp x lo hi = (if x < lo then lo else if hi < x then hi else x)"

text \<open>The number of workers that line 124 computes for a non-empty batch.\<close>

definition pool_size :: "config \<Rightarrow> 'a outcome list \<Rightarrow> int option \<Rightarrow> nat" where
  "pool_size C tasks limit =
     nat (min (max 1 (case limit of Some l \<Rightarrow> l | None \<Rightarrow> to_number (CONCURRENCY C)))
              (int (length tasks)))"

subsection \<open>Observations on a run of the pool\<close>

text \<open>A worker has settled when its promise is fulfilled or rejected.\<close>

fun settled :: "worker \<Rightarrow> bool" where
  "settled (Awaiting cur) = False"
| "settled (Sleeping ms) = False"
| "settled Finished = True"
| "settled (Crashed e) = True"

text \<open>An event that leaves \<^verbatim>\<open>CONFIG.THROTTLE_MS\<close> alone.\<close>

fun throttle_free :: "event \<Rightarrow> bool" where
  "throttle_free (Settle k) = True"
| "throttle_free (SetConfig c) = (c ''THROTTLE_MS'' = None)"

fun is_settle :: "event \<Rightarrow> bool" where
  "is_settle (Settle k) = True"
| "is_settle (SetConfig c) = False"



text \<open>Everything of the pool but the live configuration.\<close>

definition batch_view :: "'a pool \<Rightarrow> nat \<times> 'a option list \<times> worker list \<times> 'a option list promise" where
  "batch_view s = (cursor s, results s, workers s, join s)"

text \<open>
  The invariant of the pool: the result array has one slot per operation; an awaited
  index has been claimed; a written slot holds the value of its operation; every
  claimed index is written, awaited, or a rejecting operation whose exception a crashed
  worker carries; a worker finishes only
  when the cursor has passed the batch; a crash carries the exception of a rejecting
  operation; and the promise of the call agrees with the workers.
\<close>

definition pool_inv :: "'a outcome list \<Rightarrow> 'a pool \<Rightarrow> bool" where
  "pool_inv tasks s \<longleftrightarrow>
     length (results s) = length tasks \<and>
     (\<forall>k cur. k < length (workers s) \<and> workers s ! k = Awaiting cur \<longrightarrow>
        cur < cursor s \<and> cur < length tasks) \<and>
     (\<forall>i v. i < length tasks \<and> results s ! i = Some v \<longrightarrow> tasks ! i = Fulfils v) \<and>
     (\<forall>i. i < cursor s \<and> i < length tasks \<and> results s ! i = None \<longrightarrow>
        (\<exists>k < length (workers s). workers s ! k = Awaiting i \<or> (\<exists>e. workers s ! k = Crashed e \<and> tasks ! i = Rejects e))) \<and>
     (\<forall>k. k < length (workers s) \<and> workers s ! k = Finished \<longrightarrow> length tasks \<le> cursor s) \<and>
     (\<forall>k e. k < length (workers s) \<and> workers s ! k = Crashed e \<longrightarrow> Rejects e \<in> set tasks) \<and>
     (case join s of
        Pending \<Rightarrow> \<not> all_finished (workers s)
      | Fulfilled rs \<Rightarrow> rs = results s \<and> all_finished (workers s) \<and> (workers s = [] \<longrightarrow> tasks = [])
      | Rejected e \<Rightarrow>
          (\<exists>k < length (workers s). \<exists>e'. workers s ! k = Crashed e') \<and> Rejects e \<in> set tasks)"

text \<open>A measure that every step of a worker decreases.\<close>

fun weight :: "worker \<Rightarrow> nat" where
  "weight (Awaiting cur) = 2"
| "weight (Sleeping ms) = 1"
| "weight Finished = 0"
| "weight (Crashed e) = 0"

definition potential :: "'a outcome list \<Rightarrow> 'a pool \<Rightarrow> nat" where
  "potential tasks s = 3 * (length tasks - cursor s) + sum_list (map weight (workers s))"

subsection \<open>Example inputs\<close>

text \<open>An environment in which every attempt meets the same network behaviour.\<close>

definition always :: "'j net \<Rightarrow> int \<Rightarrow> 'j exchange" where
  "always n = (\<lambda>a. \<lparr>meanwhile = [], wire = n\<rparr>)"

text \<open>A response with a failure status and the given body text.\<close>

definition status_response :: "nat \<Rightarrow> string \<Rightarrow> string response" where
  "status_response st body =
     \<lparr>res_ok = False, res_status = st, res_text = Some body,
      res_json = Inl (Exn ''SyntaxError'' ''Unexpected end of JSON input'')\<rparr>"

definition failed_to_fetch :: exn where
  "failed_to_fetch = Exn ''TypeError'' ''Failed to fetch''"

text \<open>The configuration after \<^verbatim>\<open>setConfig({MAX_RETRY: 0})\<close>.\<close>

definition no_retry :: config where
  "no_retry = setConfig [''MAX_RETRY'' \<mapsto> JNum 0] CONFIG"


text \<open>
  The objects of \<^verbatim>\<open>setConfig({FOO: 1})\<close>, of
  \<^verbatim>\<open>setConfig(JSON.parse('{"__proto__": 1}'))\<close> and of \<^verbatim>\<open>setConfig({THROTTLE_MS: 500})\<close>.
\<close>

definition foo_1 :: obj where
  "foo_1 = [''FOO'' \<mapsto> JNum 1]"

definition proto_1 :: obj where
  "proto_1 = [''__proto__'' \<mapsto> JNum 1]"


text \<open>Batches of three operations.\<close>

definition three_tasks :: "nat outcome list" where
  "three_tasks = [Fulfils 10, Fulfils 20, Fulfils 30]"

definition failing_tasks :: "nat outcome list" where
  "failing_tasks = [Fulfils 10, Rejects failed_to_fetch, Fulfils 30]"



section \<open>Properties of the configuration\<close>

text \<open>
  C6, as amended. \<^verbatim>\<open>setConfig\<close> merges the known keys of the partial object over the
  current values, and it does not ignore the unknown ones: a key of the partial object
  that is not a configuration key is stored as well, unless it is \<^verbatim>\<open>__proto__\<close>, which
  an assignment does not store. The \<^verbatim>\<open>getConfig()\<close> snapshot taken afterwards is the
  snapshot taken before, overridden by the partial object without its \<^verbatim>\<open>__proto__\<close>.
\<close>

theorem setConfig_merges_unknown_keys_too:
  "getConfig (setConfig c C) = getConfig C ++ c(''__proto__'' := None)"
proof
  fix k
  show "getConfig (setConfig c C) k = (getConfig C ++ c(''__proto__'' := None)) k"
    by (simp add: getConfig_def setConfig_def assigned_def config_keys_def map_add_def
        split: option.splits)
qed

text \<open>
  C6 as stated fails: after \<^verbatim>\<open>setConfig({FOO: 1})\<close> the snapshot has the property
  \<^verbatim>\<open>FOO\<close>, which the snapshot before did not have.
\<close>

theorem setConfig_unknown_key_counterexample:
  "getConfig (setConfig foo_1 CONFIG) ''FOO'' = Some (JNum 1) \<and>
   getConfig CONFIG ''FOO'' = None"
  by (simp add: getConfig_def setConfig_def assigned_def config_keys_def CONFIG_def foo_1_def)

text \<open>The key \<^verbatim>\<open>__proto__\<close> is the one that leaves no trace in the snapshot.\<close>

lemma setConfig_proto:
  "getConfig (setConfig proto_1 CONFIG) = getConfig CONFIG"
proof
  fix k
  show "getConfig (setConfig proto_1 CONFIG) k = getConfig CONFIG k"
    by (simp add: getConfig_def setConfig_def assigned_def config_keys_def CONFIG_def proto_1_def)
qed

section \<open>Properties of \<^verbatim>\<open>postJSON\<close>\<close>

subsection \<open>One iteration\<close>

lemma iteration_Continue: "iteration T M a n = Continue ms \<Longrightarrow> a < M"
  by (auto simp: iteration_def try_block_def catch_block_def Let_def
      split: sum.splits if_splits)

lemma iteration_Returned:
  "iteration T M a n = Returned v \<Longrightarrow>
     \<exists>r. guarded_fetch T n = Inr r \<and> res_ok r \<and> res_json r = Inr v"
  by (auto simp: iteration_def try_block_def catch_block_def Let_def
      split: sum.splits if_splits)

lemma iteration_retryable_status:
  assumes "guarded_fetch T n = Inr r" "\<not> res_ok r" "retryable_status (res_status r)"
  shows "iteration T M a n =
          (if a < M then Continue (min 2000 (200 * 2 ^ nat (a - 1)))
           else Thrown (http_error (res_status r) (case res_text r of Some t \<Rightarrow> t | None \<Rightarrow> [])))"
  using assms by (simp add: iteration_def try_block_def catch_block_def Let_def)

lemma iteration_transport_failure:
  assumes "guarded_fetch T n = Inl e" "retriable e"
  shows "iteration T M a n = (if a < M then Continue (300 * a) else Thrown e)"
  using assms by (simp add: iteration_def try_block_def catch_block_def)

subsection \<open>The loop\<close>

text \<open>
  When every iteration before the last sleeps and continues and the last one throws,
  the loop makes one request per attempt, sleeps in between, and throws.
\<close>

lemma postJSON_loop_exhaust:
  assumes "attempt \<le> M"
    and "\<And>a. attempt \<le> a \<Longrightarrow> a < M \<Longrightarrow> iteration T M a (wire (env a)) = Continue (d a)"
    and "iteration T M M (wire (env M)) = Thrown e"
  shows "snd (postJSON_loop T M env attempt (C, acts)) = Throws e \<and>
         snd (fst (postJSON_loop T M env attempt (C, acts))) =
           acts @ concat (map (\<lambda>a. [Request a T, Sleep (d a)]) [attempt..M - 1]) @ [Request M T]"
  using assms
proof (induction "nat (M - attempt)" arbitrary: attempt C acts)
  case 0
  then have eq: "attempt = M" by simp
  show ?case
    using "0.prems"(3) by (simp add: eq postJSON_loop.simps [of T M env M])
next
  case (Suc n)
  then have lt: "attempt < M" by simp
  have it: "iteration T M attempt (wire (env attempt)) = Continue (d attempt)"
    using Suc.prems(2) lt by simp
  have n: "n = nat (M - (attempt + 1))" using Suc.hyps(2) by simp
  have le: "attempt + 1 \<le> M" using lt by simp
  have up: "[attempt..M - 1] = attempt # [attempt + 1..M - 1]"
    using lt by (simp add: upto_rec1)
  have IH: "snd (postJSON_loop T M env (attempt + 1) (C', acts')) = Throws e \<and>
         snd (fst (postJSON_loop T M env (attempt + 1) (C', acts'))) =
           acts' @ concat (map (\<lambda>a. [Request a T, Sleep (d a)]) [attempt + 1..M - 1]) @ [Request M T]"
    for C' acts'
    using Suc.hyps(1) [OF n le] Suc.prems(2,3) by simp
  show ?case
    using lt it IH by (simp add: postJSON_loop.simps [of T M env attempt] up Let_def)
qed

text \<open>With at least one attempt to make, the loop returns a parsed body or throws.\<close>

lemma postJSON_loop_completes:
  "attempt \<le> M \<Longrightarrow>
     (\<exists>v a r. snd (postJSON_loop T M env attempt (C, acts)) = Returns v \<and> attempt \<le> a \<and> a \<le> M \<and>
        guarded_fetch T (wire (env a)) = Inr r \<and> res_ok r \<and> res_json r = Inr v) \<or>
     (\<exists>e. snd (postJSON_loop T M env attempt (C, acts)) = Throws e)"
proof (induction "nat (M - attempt)" arbitrary: attempt C acts)
  case 0
  then have eq: "attempt = M" by simp
  show ?case
  proof (cases "iteration T M M (wire (env M))")
    case (Returned v)
    from iteration_Returned [OF this] show ?thesis
      using Returned by (auto simp: eq postJSON_loop.simps [of T M env M])
  next
    case (Thrown e)
    then show ?thesis by (simp add: eq postJSON_loop.simps [of T M env M])
  next
    case (Continue ms)
    from iteration_Continue [OF this] show ?thesis by simp
  qed
next
  case (Suc n)
  then have lt: "attempt < M" by simp
  show ?case
  proof (cases "iteration T M attempt (wire (env attempt))")
    case (Returned v)
    from iteration_Returned [OF this] obtain r where
      "guarded_fetch T (wire (env attempt)) = Inr r" "res_ok r" "res_json r = Inr v" by blast
    then have "snd (postJSON_loop T M env attempt (C, acts)) = Returns v \<and> attempt \<le> attempt \<and>
        attempt \<le> M \<and> guarded_fetch T (wire (env attempt)) = Inr r \<and> res_ok r \<and> res_json r = Inr v"
      using Returned lt by (simp add: postJSON_loop.simps [of T M env attempt])
    then show ?thesis by blast
  next
    case (Thrown e)
    then show ?thesis using lt by (simp add: postJSON_loop.simps [of T M env attempt])
  next
    case (Continue ms)
    have n: "n = nat (M - (attempt + 1))" using Suc.hyps(2) by simp
    have le: "attempt + 1 \<le> M" using lt by simp
    let ?C = "fold setConfig (meanwhile (env attempt)) C"
    let ?acts = "acts @ [Request attempt T] @ [Sleep ms]"
    have unf: "postJSON_loop T M env attempt (C, acts) = postJSON_loop T M env (attempt + 1) (?C, ?acts)"
      using Continue lt by (simp add: postJSON_loop.simps [of T M env attempt])
    from Suc.hyps(1) [OF n le, of ?C ?acts] show ?thesis
    proof
      assume "\<exists>v a r. snd (postJSON_loop T M env (attempt + 1) (?C, ?acts)) = Returns v \<and>
        attempt + 1 \<le> a \<and> a \<le> M \<and> guarded_fetch T (wire (env a)) = Inr r \<and> res_ok r \<and> res_json r = Inr v"
      then obtain v a r where
        "snd (postJSON_loop T M env (attempt + 1) (?C, ?acts)) = Returns v"
        "attempt + 1 \<le> a" "a \<le> M" "guarded_fetch T (wire (env a)) = Inr r" "res_ok r" "res_json r = Inr v"
        by blast
      then have "snd (postJSON_loop T M env attempt (C, acts)) = Returns v \<and> attempt \<le> a \<and> a \<le> M \<and>
        guarded_fetch T (wire (env a)) = Inr r \<and> res_ok r \<and> res_json r = Inr v"
        by (simp add: unf)
      then show ?thesis by blast
    next
      assume "\<exists>e. snd (postJSON_loop T M env (attempt + 1) (?C, ?acts)) = Throws e"
      then show ?thesis by (simp add: unf)
    qed
  qed
qed


subsection \<open>Evaluation of the example inputs\<close>

lemma decimal_500: "decimal 500 = ''500''"
  by (simp add: decimal.simps digit_def)

lemma decimal_429: "decimal 429 = ''429''"
  by (simp add: decimal.simps digit_def)

lemma retriable_AbortError: "retriable AbortError"
  by (simp add: retriable_def AbortError_def)

lemma retriable_failed_to_fetch: "retriable failed_to_fetch"
  by (simp add: retriable_def failed_to_fetch_def network_pattern_def String_of_def lower_def)

lemma no_retry_MAX_RETRY: "to_number (MAX_RETRY no_retry) = 0"
  by (simp add: no_retry_def setConfig_def assigned_def)

lemma CONFIG_numbers:
  "to_number (MAX_RETRY CONFIG) = 4" "to_number (TIMEOUT_MS CONFIG) = 10000"
  "to_number (CONCURRENCY CONFIG) = 6" "to_number (THROTTLE_MS CONFIG) = 0"
  by (simp_all add: CONFIG_def)

lemma upto_1_3: "[1..3] = [1, 2, 3::int]"
  by (simp add: upto_rec1)

subsection \<open>Retry exhaustion on a retryable status\<close>

text \<open>
  C3, as amended. Let \<open>MAX_RETRY\<close> be at least 1 and let every attempt receive a
  response that is not \<^verbatim>\<open>ok\<close> and whose status is 429 or 5xx. Then \<^verbatim>\<open>postJSON\<close> makes
  exactly \<open>MAX_RETRY\<close> requests, sleeps \<open>min(2000, 200 * 2^(attempt-1))\<close> ms after each
  attempt but the last, and throws an \<^verbatim>\<open>Error\<close> whose message is \<open>HTTP\<close>, the status,
  a colon and the body text of the last response, where an empty or unreadable body
  text is replaced by the fixed fallback text.
\<close>

theorem postJSON_retryable_status_exhausts:
  assumes "1 \<le> to_number (MAX_RETRY C)"
    and "\<forall>a. 1 \<le> a \<and> a \<le> to_number (MAX_RETRY C) \<longrightarrow>
           guarded_fetch (to_number (TIMEOUT_MS C)) (wire (env a)) = Inr (r a) \<and>
           \<not> res_ok (r a) \<and> retryable_status (res_status (r a))"
  shows "snd (fst (postJSON C env)) =
           concat (map (\<lambda>a. [Request a (to_number (TIMEOUT_MS C)), Sleep (min 2000 (200 * 2 ^ nat (a - 1)))])
                    [1..to_number (MAX_RETRY C) - 1])
           @ [Request (to_number (MAX_RETRY C)) (to_number (TIMEOUT_MS C))] \<and>
         snd (postJSON C env) =
           Throws (Exn ''Error''
             (''HTTP '' @ decimal (res_status (r (to_number (MAX_RETRY C)))) @ '': '' @
              (case res_text (r (to_number (MAX_RETRY C))) of
                 Some t \<Rightarrow> if t = [] then request_failed else t
               | None \<Rightarrow> request_failed)))"
proof -
  let ?M = "to_number (MAX_RETRY C)" and ?T = "to_number (TIMEOUT_MS C)"
  have c: "iteration ?T ?M a (wire (env a)) = Continue (min 2000 (200 * 2 ^ nat (a - 1)))"
    if "1 \<le> a" "a < ?M" for a
    using that assms(2) iteration_retryable_status [of ?T "wire (env a)" "r a" ?M a] by simp
  have t: "iteration ?T ?M ?M (wire (env ?M)) =
      Thrown (http_error (res_status (r ?M)) (case res_text (r ?M) of Some t \<Rightarrow> t | None \<Rightarrow> []))"
    using assms iteration_retryable_status [of ?T "wire (env ?M)" "r ?M" ?M ?M] by simp
  have msg: "http_error (res_status (r ?M)) (case res_text (r ?M) of Some t \<Rightarrow> t | None \<Rightarrow> []) =
     Exn ''Error'' (''HTTP '' @ decimal (res_status (r ?M)) @ '': '' @
              (case res_text (r ?M) of Some t \<Rightarrow> if t = [] then request_failed else t
               | None \<Rightarrow> request_failed))"
    by (simp add: http_error_def split: option.splits)
  show ?thesis
    using postJSON_loop_exhaust [of 1 ?M ?T env _ _ C "[]", OF assms(1) c t]
    by (simp add: postJSON_def Let_def msg)
qed

text \<open>
  The theorem at the default configuration (four attempts, timeout 10000 ms) and a
  server that always answers 500 with the body \<open>boom\<close>, or always 429 with the body
  \<open>slow down\<close>: delays 200, 400, 800.
\<close>

theorem postJSON_retryable_status_witness:
  "snd (fst (postJSON CONFIG (always (Responds 5 (status_response 500 ''boom''))))) =
     [Request 1 10000, Sleep 200, Request 2 10000, Sleep 400, Request 3 10000, Sleep 800,
      Request 4 10000] \<and>
   snd (postJSON CONFIG (always (Responds 5 (status_response 500 ''boom'')))) =
     Throws (Exn ''Error'' ''HTTP 500: boom'') \<and>
   snd (fst (postJSON CONFIG (always (Responds 5 (status_response 429 ''slow down''))))) =
     [Request 1 10000, Sleep 200, Request 2 10000, Sleep 400, Request 3 10000, Sleep 800,
      Request 4 10000] \<and>
   snd (postJSON CONFIG (always (Responds 5 (status_response 429 ''slow down'')))) =
     Throws (Exn ''Error'' ''HTTP 429: slow down'')"
proof -
  have h1: "1 \<le> to_number (MAX_RETRY CONFIG)"
    by (simp add: CONFIG_numbers)
  have h2: "\<forall>a. 1 \<le> a \<and> a \<le> to_number (MAX_RETRY CONFIG) \<longrightarrow>
      guarded_fetch (to_number (TIMEOUT_MS CONFIG))
        (wire (always (Responds 5 (status_response st body)) a)) =
        Inr (status_response st body) \<and>
      \<not> res_ok (status_response st body) \<and>
      retryable_status (res_status (status_response st body))"
    if "st = 500 \<or> st = 429" for st body
    using that
    by (auto simp: CONFIG_numbers always_def guarded_fetch_def status_response_def
        retryable_status_def)
  have a: "snd (fst (postJSON CONFIG (always (Responds 5 (status_response 500 ''boom''))))) =
     [Request 1 10000, Sleep 200, Request 2 10000, Sleep 400, Request 3 10000, Sleep 800,
      Request 4 10000] \<and>
   snd (postJSON CONFIG (always (Responds 5 (status_response 500 ''boom'')))) =
     Throws (Exn ''Error'' ''HTTP 500: boom'')"
    using postJSON_retryable_status_exhausts [OF h1 h2 [of 500 "''boom''"]]
    by (simp add: CONFIG_numbers upto_1_3 status_response_def decimal_500)
  have b: "snd (fst (postJSON CONFIG (always (Responds 5 (status_response 429 ''slow down''))))) =
     [Request 1 10000, Sleep 200, Request 2 10000, Sleep 400, Request 3 10000, Sleep 800,
      Request 4 10000] \<and>
   snd (postJSON CONFIG (always (Responds 5 (status_response 429 ''slow down'')))) =
     Throws (Exn ''Error'' ''HTTP 429: slow down'')"
    using postJSON_retryable_status_exhausts [OF h1 h2 [of 429 "''slow down''"]]
    by (simp add: CONFIG_numbers upto_1_3 status_response_def decimal_429)
  from a b show ?thesis by blast
qed

text \<open>
  C3 as stated fails on an empty body: the message is not \<open>HTTP 500: \<close> followed by
  the (empty) body text, it ends with the fallback text.
\<close>

theorem postJSON_empty_body_counterexample:
  "snd (postJSON CONFIG (always (Responds 5 (status_response 500 [])))) =
     Throws (Exn ''Error'' (''HTTP 500: '' @ request_failed)) \<and>
   snd (postJSON CONFIG (always (Responds 5 (status_response 500 [])))) \<noteq>
     Throws (Exn ''Error'' (''HTTP 500: '' @ []))"
  by (simp add: postJSON_def CONFIG_def postJSON_loop.simps always_def status_response_def
      iteration_def try_block_def catch_block_def guarded_fetch_def retryable_status_def
      http_error_def decimal_500 retriable_def network_pattern_def String_of_def lower_def
      request_failed_def)

subsection \<open>Retry exhaustion on a transport failure\<close>

text \<open>
  C4. Let \<open>MAX_RETRY\<close> be at least 1 and let every attempt fail at transport level:
  the guarded \<^verbatim>\<open>fetch\<close> throws (the timeout guard aborted it, or the network failed)
  and the \<^verbatim>\<open>catch\<close> block recognises the exception as retriable. Then \<^verbatim>\<open>postJSON\<close>
  makes exactly \<open>MAX_RETRY\<close> requests, sleeps \<open>300 * attempt\<close> ms after each attempt
  but the last, and rethrows the exception of the last attempt unchanged.
\<close>

theorem postJSON_transport_failure_exhausts:
  assumes "1 \<le> to_number (MAX_RETRY C)"
    and "\<forall>a. 1 \<le> a \<and> a \<le> to_number (MAX_RETRY C) \<longrightarrow>
           guarded_fetch (to_number (TIMEOUT_MS C)) (wire (env a)) = Inl (x a) \<and> retriable (x a)"
  shows "snd (fst (postJSON C env)) =
           concat (map (\<lambda>a. [Request a (to_number (TIMEOUT_MS C)), Sleep (300 * a)])
                    [1..to_number (MAX_RETRY C) - 1])
           @ [Request (to_number (MAX_RETRY C)) (to_number (TIMEOUT_MS C))] \<and>
         snd (postJSON C env) = Throws (x (to_number (MAX_RETRY C)))"
proof -
  let ?M = "to_number (MAX_RETRY C)" and ?T = "to_number (TIMEOUT_MS C)"
  have c: "iteration ?T ?M a (wire (env a)) = Continue (300 * a)"
    if "1 \<le> a" "a < ?M" for a
    using that assms(2) iteration_transport_failure [of ?T "wire (env a)" "x a" ?M a] by simp
  have t: "iteration ?T ?M ?M (wire (env ?M)) = Thrown (x ?M)"
    using assms iteration_transport_failure [of ?T "wire (env ?M)" "x ?M" ?M ?M] by simp
  show ?thesis
    using postJSON_loop_exhaust [of 1 ?M ?T env _ _ C "[]", OF assms(1) c t]
    by (simp add: postJSON_def Let_def)
qed

text \<open>
  The theorem at the default configuration, on a network that never answers (the guard
  fires on each of the four attempts) and on a network where every \<^verbatim>\<open>fetch\<close> fails
  after 3 ms with \<open>TypeError: Failed to fetch\<close>: the delays are 300, 600, 900.
\<close>

theorem postJSON_transport_failure_witness:
  "snd (fst (postJSON CONFIG (always (Hangs :: string net)))) =
     [Request 1 10000, Sleep 300, Request 2 10000, Sleep 600, Request 3 10000, Sleep 900,
      Request 4 10000] \<and>
   snd (postJSON CONFIG (always (Hangs :: string net))) = Throws AbortError \<and>
   snd (fst (postJSON CONFIG (always (Fails 3 failed_to_fetch :: string net)))) =
     [Request 1 10000, Sleep 300, Request 2 10000, Sleep 600, Request 3 10000, Sleep 900,
      Request 4 10000] \<and>
   snd (postJSON CONFIG (always (Fails 3 failed_to_fetch :: string net))) =
     Throws failed_to_fetch"
proof -
  have h1: "1 \<le> to_number (MAX_RETRY CONFIG)"
    by (simp add: CONFIG_numbers)
  have h2: "\<forall>a. 1 \<le> a \<and> a \<le> to_number (MAX_RETRY CONFIG) \<longrightarrow>
      guarded_fetch (to_number (TIMEOUT_MS CONFIG)) (wire (always (Hangs :: string net) a)) =
        Inl AbortError \<and> retriable AbortError"
    by (simp add: always_def guarded_fetch_def retriable_AbortError)
  have h3: "\<forall>a. 1 \<le> a \<and> a \<le> to_number (MAX_RETRY CONFIG) \<longrightarrow>
      guarded_fetch (to_number (TIMEOUT_MS CONFIG))
        (wire (always (Fails 3 failed_to_fetch :: string net) a)) =
        Inl failed_to_fetch \<and> retriable failed_to_fetch"
    by (simp add: always_def guarded_fetch_def retriable_failed_to_fetch CONFIG_numbers)
  have a: "snd (fst (postJSON CONFIG (always (Hangs :: string net)))) =
     [Request 1 10000, Sleep 300, Request 2 10000, Sleep 600, Request 3 10000, Sleep 900,
      Request 4 10000] \<and>
   snd (postJSON CONFIG (always (Hangs :: string net))) = Throws AbortError"
    using postJSON_transport_failure_exhausts [OF h1 h2]
    by (simp add: CONFIG_numbers upto_1_3)
  have b: "snd (fst (postJSON CONFIG (always (Fails 3 failed_to_fetch :: string net)))) =
     [Request 1 10000, Sleep 300, Request 2 10000, Sleep 600, Request 3 10000, Sleep 900,
      Request 4 10000] \<and>
   snd (postJSON CONFIG (always (Fails 3 failed_to_fetch :: string net))) =
     Throws failed_to_fetch"
    using postJSON_transport_failure_exhausts [OF h1 h3]
    by (simp add: CONFIG_numbers upto_1_3)
  from a b show ?thesis by blast
qed

subsection \<open>The end of the loop\<close>

text \<open>
  C8, as amended. When \<open>MAX_RETRY\<close> is at least 1, \<^verbatim>\<open>postJSON\<close> never runs off the end
  of its loop: it returns the parsed body of an \<^verbatim>\<open>ok\<close> response received on one of
  the attempts 1 to \<open>MAX_RETRY\<close>, or it throws.
\<close>

theorem postJSON_returns_or_throws:
  assumes "1 \<le> to_number (MAX_RETRY C)"
  shows "snd (postJSON C env) \<noteq> Falls_through \<and>
         ((\<exists>v a r. snd (postJSON C env) = Returns v \<and> 1 \<le> a \<and> a \<le> to_number (MAX_RETRY C) \<and>
             guarded_fetch (to_number (TIMEOUT_MS C)) (wire (env a)) = Inr r \<and>
             res_ok r \<and> res_json r = Inr v) \<or>
          (\<exists>e. snd (postJSON C env) = Throws e))"
proof -
  have *: "(\<exists>v a r. snd (postJSON C env) = Returns v \<and> 1 \<le> a \<and> a \<le> to_number (MAX_RETRY C) \<and>
             guarded_fetch (to_number (TIMEOUT_MS C)) (wire (env a)) = Inr r \<and>
             res_ok r \<and> res_json r = Inr v) \<or>
          (\<exists>e. snd (postJSON C env) = Throws e)"
    using postJSON_loop_completes [OF assms, of "to_number (TIMEOUT_MS C)" env C "[]"]
    by (simp add: postJSON_def Let_def)
  then have "snd (postJSON C env) \<noteq> Falls_through" by auto
  with * show ?thesis by blast
qed

text \<open>The theorem at the default configuration and a server that always answers 404.\<close>

theorem postJSON_returns_or_throws_witness:
  "1 \<le> to_number (MAX_RETRY CONFIG) \<and>
   snd (postJSON CONFIG (always (Responds 5 (status_response 404 ''gone'')))) \<noteq> Falls_through"
proof -
  have h: "1 \<le> to_number (MAX_RETRY CONFIG)"
    by (simp add: CONFIG_numbers)
  from postJSON_returns_or_throws [OF h] show ?thesis
    using h by blast
qed

text \<open>
  C8 as stated fails in its parenthesis: the end of the loop carries no guard. When it
  is reached (here with \<open>MAX_RETRY\<close> set to 0) the call neither throws nor returns a
  body.
\<close>

theorem postJSON_no_guard_counterexample:
  "snd (postJSON no_retry (always (Responds 5 (status_response 500 ''boom'')))) = Falls_through"
  by (simp add: postJSON_def Let_def no_retry_MAX_RETRY postJSON_loop.simps [of _ 0 _ 1])

text \<open>
  C10. When the configured \<open>MAX_RETRY\<close> is below 1, \<^verbatim>\<open>postJSON\<close> issues no request,
  sleeps never, does not throw, and completes without a value; the configuration is
  left as it was.
\<close>

theorem postJSON_max_retry_below_one:
  "to_number (MAX_RETRY C) < 1 \<Longrightarrow> postJSON C env = ((C, []), Falls_through)"
  by (simp add: postJSON_def Let_def postJSON_loop.simps [of _ _ env 1])

text \<open>The theorem after \<^verbatim>\<open>setConfig({MAX_RETRY: 0})\<close>, on a network that would fail.\<close>

theorem postJSON_max_retry_below_one_witness:
  "to_number (MAX_RETRY no_retry) < 1 \<and>
   postJSON no_retry (always (Fails 3 failed_to_fetch :: string net)) =
     ((no_retry, []), Falls_through)"
proof -
  have h: "to_number (MAX_RETRY no_retry) < 1"
    by (simp add: no_retry_MAX_RETRY)
  from postJSON_max_retry_below_one [OF h] show ?thesis
    using h by simp
qed

section \<open>Properties of \<^verbatim>\<open>runWithConcurrency\<close>\<close>

subsection \<open>The start of a run\<close>

lemma all_finished_nth: "all_finished ws \<longleftrightarrow> (\<forall>k < length ws. ws ! k = Finished)"
  by (simp add: all_finished_def list_all_length)

lemma spawn_funpow:
  "k \<le> length tasks \<Longrightarrow>
   (spawn tasks ^^ k) \<lparr>live = C, cursor = 0, results = R, workers = [], join = Pending\<rparr> =
     \<lparr>live = C, cursor = k, results = R, workers = map Awaiting [0..<k], join = Pending\<rparr>"
  by (induction k) (simp_all add: spawn_def next_claim_def)

lemma pool_size_le: "pool_size C tasks limit \<le> length tasks"
  by (simp add: pool_size_def)

lemma pool_size_pos: "tasks \<noteq> [] \<Longrightarrow> 0 < pool_size C tasks limit"
  by (cases tasks) (simp_all add: pool_size_def)

lemma runWithConcurrency_nonempty:
  assumes "tasks \<noteq> []"
  shows "runWithConcurrency C tasks limit =
     \<lparr>live = C, cursor = pool_size C tasks limit, results = replicate (length tasks) None,
      workers = map Awaiting [0..<pool_size C tasks limit], join = Pending\<rparr>"
  using assms spawn_funpow [OF pool_size_le]
  by (simp add: runWithConcurrency_def pool_size_def Let_def)

lemma pool_inv_start: "pool_inv tasks (runWithConcurrency C tasks limit)"
proof (cases "tasks = []")
  case True
  then show ?thesis
    by (simp add: runWithConcurrency_def pool_inv_def all_finished_nth)
next
  case False
  have le: "pool_size C tasks limit \<le> length tasks" by (rule pool_size_le)
  have pos: "0 < pool_size C tasks limit" using False by (rule pool_size_pos)
  show ?thesis
    unfolding runWithConcurrency_nonempty [OF False] pool_inv_def
    using le pos by (auto simp: all_finished_nth)
qed

subsection \<open>The invariant\<close>

lemma pool_invD:
  assumes "pool_inv tasks s"
  shows "length (results s) = length tasks"
    and "\<And>k cur. k < length (workers s) \<Longrightarrow> workers s ! k = Awaiting cur \<Longrightarrow>
           cur < cursor s \<and> cur < length tasks"
    and "\<And>i v. i < length tasks \<Longrightarrow> results s ! i = Some v \<Longrightarrow> tasks ! i = Fulfils v"
    and "\<And>i. i < cursor s \<Longrightarrow> i < length tasks \<Longrightarrow> results s ! i = None \<Longrightarrow>
           \<exists>k < length (workers s). workers s ! k = Awaiting i \<or> (\<exists>e. workers s ! k = Crashed e \<and> tasks ! i = Rejects e)"
    and "\<And>k. k < length (workers s) \<Longrightarrow> workers s ! k = Finished \<Longrightarrow> length tasks \<le> cursor s"
    and "\<And>k e. k < length (workers s) \<Longrightarrow> workers s ! k = Crashed e \<Longrightarrow> Rejects e \<in> set tasks"
    and "join s = Pending \<Longrightarrow> \<not> all_finished (workers s)"
    and "\<And>rs. join s = Fulfilled rs \<Longrightarrow>
           rs = results s \<and> all_finished (workers s) \<and> (workers s = [] \<longrightarrow> tasks = [])"
    and "\<And>e. join s = Rejected e \<Longrightarrow> \<exists>k < length (workers s). \<exists>e'. workers s ! k = Crashed e'"
    and "\<And>e. join s = Rejected e \<Longrightarrow> Rejects e \<in> set tasks"
  using assms unfolding pool_inv_def by (blast, blast, blast, blast, blast, blast, simp_all)

lemma pool_invI:
  assumes "length (results s) = length tasks"
    and "\<And>k cur. k < length (workers s) \<Longrightarrow> workers s ! k = Awaiting cur \<Longrightarrow>
           cur < cursor s \<and> cur < length tasks"
    and "\<And>i v. i < length tasks \<Longrightarrow> results s ! i = Some v \<Longrightarrow> tasks ! i = Fulfils v"
    and "\<And>i. i < cursor s \<Longrightarrow> i < length tasks \<Longrightarrow> results s ! i = None \<Longrightarrow>
           \<exists>k < length (workers s). workers s ! k = Awaiting i \<or> (\<exists>e. workers s ! k = Crashed e \<and> tasks ! i = Rejects e)"
    and "\<And>k. k < length (workers s) \<Longrightarrow> workers s ! k = Finished \<Longrightarrow> length tasks \<le> cursor s"
    and "\<And>k e. k < length (workers s) \<Longrightarrow> workers s ! k = Crashed e \<Longrightarrow> Rejects e \<in> set tasks"
    and "join s = Pending \<Longrightarrow> \<not> all_finished (workers s)"
    and "\<And>rs. join s = Fulfilled rs \<Longrightarrow>
           rs = results s \<and> all_finished (workers s) \<and> (workers s = [] \<longrightarrow> tasks = [])"
    and "\<And>e. join s = Rejected e \<Longrightarrow> \<exists>k < length (workers s). \<exists>e'. workers s ! k = Crashed e'"
    and "\<And>e. join s = Rejected e \<Longrightarrow> Rejects e \<in> set tasks"
  shows "pool_inv tasks s"
  unfolding pool_inv_def using assms by (auto split: promise.splits)

lemma not_all_finished: "k < length ws \<Longrightarrow> ws ! k \<noteq> Finished \<Longrightarrow> \<not> all_finished ws"
  by (auto simp: all_finished_nth)

text \<open>Writing the result of operation cur; worker k goes to sleep.\<close>

lemma pool_inv_write:
  assumes inv: "pool_inv tasks s" and k: "k < length (workers s)"
    and w: "workers s ! k = Awaiting cur" and t: "tasks ! cur = Fulfils v"
  shows "pool_inv tasks
           (s\<lparr>results := (results s)[cur := Some v], workers := (workers s)[k := Sleeping ms]\<rparr>)"
    (is "pool_inv tasks ?s")
proof (rule pool_invI)
  note I = pool_invD [OF inv]
  from I(2) [OF k w] have cur: "cur < cursor s" "cur < length tasks" by simp_all
  have nf0: "\<not> all_finished (workers s)"
    using not_all_finished [OF k] w by simp
  show "length (results ?s) = length tasks" using I(1) by simp
  show "c < cursor ?s \<and> c < length tasks"
    if "j < length (workers ?s)" "workers ?s ! j = Awaiting c" for j c
  proof -
    from that have "j \<noteq> k" by (auto simp: nth_list_update split: if_splits)
    with that I(2) [of j c] show ?thesis by simp
  qed
  show "tasks ! i = Fulfils u" if "i < length tasks" "results ?s ! i = Some u" for i u
  proof (cases "i = cur")
    case True
    with that I(1) t show ?thesis by simp
  next
    case False
    with that I(3) [of i u] show ?thesis by simp
  qed
  show "\<exists>j < length (workers ?s). workers ?s ! j = Awaiting i \<or> (\<exists>e. workers ?s ! j = Crashed e \<and> tasks ! i = Rejects e)"
    if "i < cursor ?s" "i < length tasks" "results ?s ! i = None" for i
  proof -
    from that I(1) have ne: "i \<noteq> cur" by (auto simp: nth_list_update split: if_splits)
    with that I(4) [of i] obtain j where j: "j < length (workers s)"
      "workers s ! j = Awaiting i \<or> (\<exists>e. workers s ! j = Crashed e \<and> tasks ! i = Rejects e)" by auto
    then have "j \<noteq> k" using w ne by auto
    with j have "j < length (workers ?s) \<and>
       (workers ?s ! j = Awaiting i \<or> (\<exists>e. workers ?s ! j = Crashed e \<and> tasks ! i = Rejects e))" by simp
    then show ?thesis by blast
  qed
  show "length tasks \<le> cursor ?s" if "j < length (workers ?s)" "workers ?s ! j = Finished" for j
  proof -
    from that have "j \<noteq> k" by (auto simp: nth_list_update split: if_splits)
    with that I(5) [of j] show ?thesis by simp
  qed
  show "Rejects e \<in> set tasks" if "j < length (workers ?s)" "workers ?s ! j = Crashed e" for j e
  proof -
    from that have "j \<noteq> k" by (auto simp: nth_list_update split: if_splits)
    with that I(6) [of j e] show ?thesis by simp
  qed
  show "\<not> all_finished (workers ?s)" if "join ?s = Pending"
    using not_all_finished [of k "workers ?s"] k by simp
  show "rs = results ?s \<and> all_finished (workers ?s) \<and> (workers ?s = [] \<longrightarrow> tasks = [])"
    if "join ?s = Fulfilled rs" for rs
    using that I(8) [of rs] nf0 by simp
  show "\<exists>j < length (workers ?s). \<exists>e'. workers ?s ! j = Crashed e'" if "join ?s = Rejected e" for e
  proof -
    from that I(9) [of e] obtain j e' where j: "j < length (workers s)" "workers s ! j = Crashed e'"
      by auto
    then have "j \<noteq> k" using w by auto
    with j have "j < length (workers ?s) \<and> workers ?s ! j = Crashed e'" by simp
    then show ?thesis by blast
  qed
  show "Rejects e \<in> set tasks" if "join ?s = Rejected e" for e
    using that I(10) [of e] by simp
qed

text \<open>A sleeping worker claims the next index.\<close>

lemma pool_inv_resume:
  assumes inv: "pool_inv tasks s" and k: "k < length (workers s)"
    and w: "workers s ! k = Sleeping ms"
  shows "pool_inv tasks (resume tasks k s)"
proof (cases "cursor s < length tasks")
  case True
  let ?s = "s\<lparr>cursor := Suc (cursor s), workers := (workers s)[k := Awaiting (cursor s)]\<rparr>"
  have nf: "\<not> all_finished ((workers s)[k := Awaiting (cursor s)])"
    using not_all_finished [of k "(workers s)[k := Awaiting (cursor s)]"] k by simp
  have eq: "resume tasks k s = ?s"
    using True nf by (simp add: resume_def next_claim_def Let_def)
  have "pool_inv tasks ?s"
  proof (rule pool_invI)
    note I = pool_invD [OF inv]
    show "length (results ?s) = length tasks" using I(1) by simp
    show "c < cursor ?s \<and> c < length tasks"
      if "j < length (workers ?s)" "workers ?s ! j = Awaiting c" for j c
    proof (cases "j = k")
      case True
      with that k \<open>cursor s < length tasks\<close> show ?thesis by simp
    next
      case False
      with that I(2) [of j c] show ?thesis by auto
    qed
    show "tasks ! i = Fulfils u" if "i < length tasks" "results ?s ! i = Some u" for i u
      using that I(3) [of i u] by simp
    show "\<exists>j < length (workers ?s). workers ?s ! j = Awaiting i \<or> (\<exists>e. workers ?s ! j = Crashed e \<and> tasks ! i = Rejects e)"
      if "i < cursor ?s" "i < length tasks" "results ?s ! i = None" for i
    proof (cases "i = cursor s")
      case True
      then have "k < length (workers ?s) \<and> workers ?s ! k = Awaiting i" using k by simp
      then show ?thesis by blast
    next
      case False
      with that I(4) [of i] obtain j where j: "j < length (workers s)"
        "workers s ! j = Awaiting i \<or> (\<exists>e. workers s ! j = Crashed e \<and> tasks ! i = Rejects e)" by auto
      then have "j \<noteq> k" using w by auto
      with j have "j < length (workers ?s) \<and>
         (workers ?s ! j = Awaiting i \<or> (\<exists>e. workers ?s ! j = Crashed e \<and> tasks ! i = Rejects e))" by simp
      then show ?thesis by blast
    qed
    show "length tasks \<le> cursor ?s" if "j < length (workers ?s)" "workers ?s ! j = Finished" for j
    proof -
      from that have "j \<noteq> k" by (auto simp: nth_list_update split: if_splits)
      with that I(5) [of j] show ?thesis by simp
    qed
    show "Rejects e \<in> set tasks" if "j < length (workers ?s)" "workers ?s ! j = Crashed e" for j e
    proof -
      from that have "j \<noteq> k" by (auto simp: nth_list_update split: if_splits)
      with that I(6) [of j e] show ?thesis by simp
    qed
    show "\<not> all_finished (workers ?s)" if "join ?s = Pending"
      using nf by simp
    show "rs = results ?s \<and> all_finished (workers ?s) \<and> (workers ?s = [] \<longrightarrow> tasks = [])"
      if "join ?s = Fulfilled rs" for rs
      using that I(8) [of rs] not_all_finished [OF k] w by simp
    show "\<exists>j < length (workers ?s). \<exists>e'. workers ?s ! j = Crashed e'" if "join ?s = Rejected e" for e
    proof -
      from that I(9) [of e] obtain j e' where j: "j < length (workers s)" "workers s ! j = Crashed e'"
        by auto
      then have "j \<noteq> k" using w by auto
      with j have "j < length (workers ?s) \<and> workers ?s ! j = Crashed e'" by simp
      then show ?thesis by blast
    qed
    show "Rejects e \<in> set tasks" if "join ?s = Rejected e" for e
      using that I(10) [of e] by simp
  qed
  then show ?thesis by (simp add: eq)
next
  case False
  let ?ws = "(workers s)[k := Finished]"
  let ?s = "s\<lparr>cursor := Suc (cursor s), workers := ?ws,
      join := (if join s = Pending \<and> all_finished ?ws then Fulfilled (results s) else join s)\<rparr>"
  have eq: "resume tasks k s = ?s"
    using False by (simp add: resume_def next_claim_def Let_def)
  have nf0: "\<not> all_finished (workers s)"
    using not_all_finished [OF k] w by simp
  have "pool_inv tasks ?s"
  proof (rule pool_invI)
    note I = pool_invD [OF inv]
    show "length (results ?s) = length tasks" using I(1) by simp
    show "c < cursor ?s \<and> c < length tasks"
      if "j < length (workers ?s)" "workers ?s ! j = Awaiting c" for j c
    proof -
      from that have "j \<noteq> k" by (auto simp: nth_list_update split: if_splits)
      with that I(2) [of j c] show ?thesis by auto
    qed
    show "tasks ! i = Fulfils u" if "i < length tasks" "results ?s ! i = Some u" for i u
      using that I(3) [of i u] by simp
    show "\<exists>j < length (workers ?s). workers ?s ! j = Awaiting i \<or> (\<exists>e. workers ?s ! j = Crashed e \<and> tasks ! i = Rejects e)"
      if "i < cursor ?s" "i < length tasks" "results ?s ! i = None" for i
    proof -
      from that False have "i < cursor s" by simp
      with that I(4) [of i] obtain j where j: "j < length (workers s)"
        "workers s ! j = Awaiting i \<or> (\<exists>e. workers s ! j = Crashed e \<and> tasks ! i = Rejects e)" by auto
      then have "j \<noteq> k" using w by auto
      with j have "j < length (workers ?s) \<and>
         (workers ?s ! j = Awaiting i \<or> (\<exists>e. workers ?s ! j = Crashed e \<and> tasks ! i = Rejects e))" by simp
      then show ?thesis by blast
    qed
    show "length tasks \<le> cursor ?s" if "j < length (workers ?s)" "workers ?s ! j = Finished" for j
      using False by simp
    show "Rejects e \<in> set tasks" if "j < length (workers ?s)" "workers ?s ! j = Crashed e" for j e
    proof -
      from that have "j \<noteq> k" by (auto simp: nth_list_update split: if_splits)
      with that I(6) [of j e] show ?thesis by simp
    qed
    show "\<not> all_finished (workers ?s)" if "join ?s = Pending"
      using that by (auto split: if_splits)
    show "rs = results ?s \<and> all_finished (workers ?s) \<and> (workers ?s = [] \<longrightarrow> tasks = [])"
      if "join ?s = Fulfilled rs" for rs
    proof (cases "join s = Pending \<and> all_finished ?ws")
      case True
      with that k show ?thesis by auto
    next
      case False
      with that have "join s = Fulfilled rs" by (auto split: if_splits)
      with I(8) [of rs] nf0 show ?thesis by simp
    qed
    show "\<exists>j < length (workers ?s). \<exists>e'. workers ?s ! j = Crashed e'" if "join ?s = Rejected e" for e
    proof -
      from that have "join s = Rejected e" by (auto split: if_splits)
      with I(9) [of e] obtain j e' where j: "j < length (workers s)" "workers s ! j = Crashed e'"
        by auto
      then have "j \<noteq> k" using w by auto
      with j have "j < length (workers ?s) \<and> workers ?s ! j = Crashed e'" by simp
      then show ?thesis by blast
    qed
    show "Rejects e \<in> set tasks" if "join ?s = Rejected e" for e
    proof -
      from that have "join s = Rejected e" by (auto split: if_splits)
      with I(10) [of e] show ?thesis by simp
    qed
  qed
  then show ?thesis by (simp add: eq)
qed

text \<open>The operation of worker k rejects.\<close>

lemma pool_inv_crash:
  assumes inv: "pool_inv tasks s" and k: "k < length (workers s)"
    and w: "workers s ! k = Awaiting cur" and t: "tasks ! cur = Rejects e"
  shows "pool_inv tasks (crash k e s)"
proof -
  let ?s = "s\<lparr>workers := (workers s)[k := Crashed e],
       join := (if join s = Pending then Rejected e else join s)\<rparr>"
  have eq: "crash k e s = ?s" by (simp add: crash_def)
  note I = pool_invD [OF inv]
  from I(2) [OF k w] have cur: "cur < cursor s" "cur < length tasks" by simp_all
  have nf0: "\<not> all_finished (workers s)"
    using not_all_finished [OF k] w by simp
  have crashed: "k < length (workers ?s) \<and> workers ?s ! k = Crashed e" using k by simp
  have "pool_inv tasks ?s"
  proof (rule pool_invI)
    show "length (results ?s) = length tasks" using I(1) by simp
    show "c < cursor ?s \<and> c < length tasks"
      if "j < length (workers ?s)" "workers ?s ! j = Awaiting c" for j c
    proof -
      from that have "j \<noteq> k" by (auto simp: nth_list_update split: if_splits)
      with that I(2) [of j c] show ?thesis by auto
    qed
    show "tasks ! i = Fulfils u" if "i < length tasks" "results ?s ! i = Some u" for i u
      using that I(3) [of i u] by simp
    show "\<exists>j < length (workers ?s). workers ?s ! j = Awaiting i \<or> (\<exists>e. workers ?s ! j = Crashed e \<and> tasks ! i = Rejects e)"
      if "i < cursor ?s" "i < length tasks" "results ?s ! i = None" for i
    proof (cases "i = cur")
      case True
      with crashed t show ?thesis by blast
    next
      case False
      with that I(4) [of i] obtain j where j: "j < length (workers s)"
        "workers s ! j = Awaiting i \<or> (\<exists>e. workers s ! j = Crashed e \<and> tasks ! i = Rejects e)" by auto
      then have "j \<noteq> k" using w False by auto
      with j have "j < length (workers ?s) \<and>
         (workers ?s ! j = Awaiting i \<or> (\<exists>e. workers ?s ! j = Crashed e \<and> tasks ! i = Rejects e))" by simp
      then show ?thesis by blast
    qed
    show "length tasks \<le> cursor ?s" if "j < length (workers ?s)" "workers ?s ! j = Finished" for j
    proof -
      from that have "j \<noteq> k" by (auto simp: nth_list_update split: if_splits)
      with that I(5) [of j] show ?thesis by simp
    qed
    show "Rejects e' \<in> set tasks" if "j < length (workers ?s)" "workers ?s ! j = Crashed e'" for j e'
    proof (cases "j = k")
      case True
      with that k have "e' = e" by simp
      moreover have "Rejects e \<in> set tasks" using t cur(2) nth_mem by metis
      ultimately show ?thesis by simp
    next
      case False
      with that I(6) [of j e'] show ?thesis by simp
    qed
    show "\<not> all_finished (workers ?s)" if "join ?s = Pending"
      using that by (auto split: if_splits)
    show "rs = results ?s \<and> all_finished (workers ?s) \<and> (workers ?s = [] \<longrightarrow> tasks = [])"
      if "join ?s = Fulfilled rs" for rs
    proof -
      from that have "join s = Fulfilled rs" by (auto split: if_splits)
      with I(8) [of rs] nf0 show ?thesis by simp
    qed
    show "\<exists>j < length (workers ?s). \<exists>e'. workers ?s ! j = Crashed e'" if "join ?s = Rejected e'" for e'
      using crashed by blast
    show "Rejects e' \<in> set tasks" if "join ?s = Rejected e'" for e'
    proof (cases "join s = Pending")
      case True
      with that have "e' = e" by simp
      moreover have "Rejects e \<in> set tasks" using t cur(2) nth_mem by metis
      ultimately show ?thesis by simp
    next
      case False
      with that I(10) [of e'] show ?thesis by simp
    qed
  qed
  then show ?thesis by (simp add: eq)
qed

lemma resume_overwrites:
  "resume tasks k (s\<lparr>workers := (workers s)[k := w]\<rparr>) = resume tasks k s"
  by (simp add: resume_def next_claim_def Let_def)

lemma pool_inv_step:
  assumes inv: "pool_inv tasks s"
  shows "pool_inv tasks (step tasks ev s)"
proof (cases ev)
  case (SetConfig c)
  have "pool_inv tasks (s\<lparr>live := setConfig c (live s)\<rparr>)"
    using inv unfolding pool_inv_def by (simp split: promise.splits)
  then show ?thesis using SetConfig by simp
next
  case (Settle k)
  show ?thesis
  proof (cases "k < length (workers s)")
    case False
    then show ?thesis using inv Settle by simp
  next
    case k: True
    show ?thesis
    proof (cases "workers s ! k")
      case (Awaiting cur)
      show ?thesis
      proof (cases "tasks ! cur")
        case (Fulfils v)
        let ?s' = "s\<lparr>results := (results s)[cur := Some v]\<rparr>"
        show ?thesis
        proof (cases "to_number (THROTTLE_MS (live s)) > 0")
          case True
          have "step tasks ev s =
             s\<lparr>results := (results s)[cur := Some v],
               workers := (workers s)[k := Sleeping (to_number (THROTTLE_MS (live s)))]\<rparr>"
            using Settle k Awaiting Fulfils True by (simp add: Let_def)
          then show ?thesis using pool_inv_write [OF inv k Awaiting Fulfils] by simp
        next
          case False
          let ?t = "s\<lparr>results := (results s)[cur := Some v], workers := (workers s)[k := Sleeping 0]\<rparr>"
          have "step tasks ev s = resume tasks k ?s'"
            using Settle k Awaiting Fulfils False by (simp add: Let_def)
          also have "\<dots> = resume tasks k ?t"
            using resume_overwrites [of tasks k ?s' "Sleeping 0"] by simp
          finally have eq: "step tasks ev s = resume tasks k ?t" .
          have "pool_inv tasks ?t" by (rule pool_inv_write [OF inv k Awaiting Fulfils])
          then have "pool_inv tasks (resume tasks k ?t)"
            by (rule pool_inv_resume) (use k in simp_all)
          then show ?thesis by (simp add: eq)
        qed
      next
        case (Rejects e)
        have "step tasks ev s = crash k e s"
          using Settle k Awaiting Rejects by simp
        then show ?thesis using pool_inv_crash [OF inv k Awaiting Rejects] by simp
      qed
    next
      case (Sleeping ms)
      have "step tasks ev s = resume tasks k s"
        using Settle k Sleeping by simp
      then show ?thesis using pool_inv_resume [OF inv k Sleeping] by simp
    next
      case Finished
      then show ?thesis using inv Settle k by simp
    next
      case (Crashed e)
      then show ?thesis using inv Settle k by simp
    qed
  qed
qed

lemma pool_inv_run: "pool_inv tasks s \<Longrightarrow> pool_inv tasks (run tasks evs s)"
  unfolding run_def by (induction evs arbitrary: s) (simp_all add: pool_inv_step)

lemma run_append: "run tasks (evs @ rest) s = run tasks rest (run tasks evs s)"
  by (simp add: run_def)

lemma pool_inv_reachable: "pool_inv tasks (run tasks evs (runWithConcurrency C tasks limit))"
  by (rule pool_inv_run [OF pool_inv_start])

subsection \<open>Results of a fulfilled call\<close>

text \<open>A fulfilled join holds the outcome of every operation in its slot.\<close>

lemma fulfilled_results:
  assumes inv: "pool_inv tasks s" and j: "join s = Fulfilled rs"
  shows "length rs = length tasks \<and> (\<forall>i < length tasks. \<exists>v. tasks ! i = Fulfils v \<and> rs ! i = Some v)"
proof -
  note I = pool_invD [OF inv]
  from I(8) [OF j] have rs: "rs = results s" and fin: "all_finished (workers s)"
    and ne: "workers s = [] \<longrightarrow> tasks = []" by simp_all
  have slot: "\<exists>v. tasks ! i = Fulfils v \<and> rs ! i = Some v" if i: "i < length tasks" for i
  proof -
    from i ne have "0 < length (workers s)" by auto
    moreover from fin this have "workers s ! 0 = Finished" by (simp add: all_finished_nth)
    ultimately have "length tasks \<le> cursor s" using I(5) [of 0] by simp
    with i have c: "i < cursor s" by simp
    have "results s ! i \<noteq> None"
    proof
      assume "results s ! i = None"
      from I(4) [OF c i this] obtain k where "k < length (workers s)"
        "workers s ! k = Awaiting i \<or> (\<exists>e. workers s ! k = Crashed e \<and> tasks ! i = Rejects e)" by blast
      with fin show False by (auto simp: all_finished_nth)
    qed
    then obtain v where v: "results s ! i = Some v" by auto
    with I(3) [OF i v] rs show ?thesis by simp
  qed
  from I(1) rs slot show ?thesis by simp
qed

subsection \<open>Progress\<close>

lemma sum_list_weight_update:
  "k < length ws \<Longrightarrow>
   sum_list (map weight (ws[k := w])) + weight (ws ! k) = sum_list (map weight ws) + weight w"
proof (induction ws arbitrary: k)
  case Nil
  then show ?case by simp
next
  case (Cons a ws)
  then show ?case by (cases k) (simp_all add: algebra_simps)
qed

lemma potential_resume:
  assumes k: "k < length (workers s)" and w: "\<not> settled (workers s ! k)"
  shows "potential tasks (resume tasks k s) < potential tasks s"
proof -
  have pos: "1 \<le> weight (workers s ! k)" using w by (cases "workers s ! k") simp_all
  show ?thesis
  proof (cases "cursor s < length tasks")
    case True
    from sum_list_weight_update [OF k, of "Awaiting (cursor s)"] True show ?thesis
      by (simp add: potential_def resume_def next_claim_def Let_def)
  next
    case False
    from sum_list_weight_update [OF k, of Finished] False pos show ?thesis
      by (simp add: potential_def resume_def next_claim_def Let_def)
  qed
qed

lemma potential_step:
  assumes k: "k < length (workers s)" and w: "\<not> settled (workers s ! k)"
  shows "potential tasks (step tasks (Settle k) s) < potential tasks s"
proof (cases "workers s ! k")
  case (Awaiting cur)
  show ?thesis
  proof (cases "tasks ! cur")
    case (Fulfils v)
    let ?s' = "s\<lparr>results := (results s)[cur := Some v]\<rparr>"
    show ?thesis
    proof (cases "to_number (THROTTLE_MS (live s)) > 0")
      case True
      from sum_list_weight_update [OF k, of "Sleeping (to_number (THROTTLE_MS (live s)))"]
      show ?thesis
        using k Awaiting Fulfils True by (simp add: potential_def Let_def)
    next
      case False
      have "potential tasks (resume tasks k ?s') < potential tasks ?s'"
        by (rule potential_resume) (use k w in simp_all)
      moreover have "potential tasks ?s' = potential tasks s" by (simp add: potential_def)
      ultimately show ?thesis
        using k Awaiting Fulfils False by (simp add: Let_def)
    qed
  next
    case (Rejects e)
    from sum_list_weight_update [OF k, of "Crashed e"] show ?thesis
      using k Awaiting Rejects by (simp add: potential_def crash_def)
  qed
next
  case (Sleeping ms)
  then show ?thesis using k potential_resume [OF k w] by simp
next
  case Finished
  then show ?thesis using w by simp
next
  case (Crashed e)
  then show ?thesis using w by simp
qed

lemma run_Cons: "run tasks (ev # evs) s = run tasks evs (step tasks ev s)"
  by (simp add: run_def)

lemma run_Nil: "run tasks [] s = s"
  by (simp add: run_def)

text \<open>From every state the workers can be driven until each has settled.\<close>

lemma drain: "\<exists>evs. list_all settled (workers (run tasks evs s))"
proof (induction "potential tasks s" arbitrary: s rule: less_induct)
  case less
  show ?case
  proof (cases "list_all settled (workers s)")
    case True
    then have "list_all settled (workers (run tasks [] s))" by (simp add: run_Nil)
    then show ?thesis by blast
  next
    case False
    then obtain k where k: "k < length (workers s)" "\<not> settled (workers s ! k)"
      by (auto simp: list_all_length)
    from potential_step [OF k] less obtain evs where
      "list_all settled (workers (run tasks evs (step tasks (Settle k) s)))" by blast
    then have "list_all settled (workers (run tasks (Settle k # evs) s))"
      by (simp add: run_Cons)
    then show ?thesis by blast
  qed
qed

text \<open>When no operation rejects and every worker has settled, the join is fulfilled.\<close>

lemma settled_fulfilled:
  assumes inv: "pool_inv tasks s" and ok: "\<forall>i < length tasks. \<exists>v. tasks ! i = Fulfils v"
    and q: "list_all settled (workers s)"
  shows "\<exists>rs. join s = Fulfilled rs"
proof -
  note I = pool_invD [OF inv]
  have nocrash: "workers s ! k \<noteq> Crashed e" if "k < length (workers s)" for k e
  proof
    assume "workers s ! k = Crashed e"
    from I(6) [OF that this] obtain i where "i < length tasks" "tasks ! i = Rejects e"
      by (auto simp: in_set_conv_nth)
    with ok show False by auto
  qed
  have fin: "all_finished (workers s)"
    unfolding all_finished_nth
  proof (intro allI impI)
    fix k assume k: "k < length (workers s)"
    with q have "settled (workers s ! k)" by (simp add: list_all_length)
    with nocrash [OF k] show "workers s ! k = Finished" by (cases "workers s ! k") auto
  qed
  show ?thesis
  proof (cases "join s")
    case Pending
    with I(7) fin show ?thesis by simp
  next
    case (Fulfilled rs)
    then show ?thesis by simp
  next
    case (Rejected e)
    from I(9) [OF this] nocrash show ?thesis by blast
  qed
qed

subsection \<open>What a step leaves alone\<close>

lemma results_resume [simp]: "results (resume tasks k s) = results s"
  by (simp add: resume_def next_claim_def Let_def)

lemma results_crash [simp]: "results (crash k e s) = results s"
  by (simp add: crash_def)

lemma length_workers_resume [simp]: "length (workers (resume tasks k s)) = length (workers s)"
  by (simp add: resume_def next_claim_def Let_def)

lemma length_workers_crash [simp]: "length (workers (crash k e s)) = length (workers s)"
  by (simp add: crash_def)

lemma length_workers_step [simp]: "length (workers (step tasks ev s)) = length (workers s)"
  by (cases ev) (simp_all add: Let_def split: worker.splits outcome.splits)

lemma length_workers_run [simp]: "length (workers (run tasks evs s)) = length (workers s)"
  unfolding run_def by (induction evs arbitrary: s) simp_all

text \<open>A step writes at most the slot of the operation that completed.\<close>

lemma results_step:
  "results (step tasks ev s) = results s \<or>
   (\<exists>k cur v. k < length (workers s) \<and> workers s ! k = Awaiting cur \<and> tasks ! cur = Fulfils v \<and>
      results (step tasks ev s) = (results s)[cur := Some v])"
proof (cases ev)
  case (SetConfig c)
  then show ?thesis by simp
next
  case (Settle k)
  show ?thesis
  proof (cases "k < length (workers s)")
    case False
    then show ?thesis using Settle by simp
  next
    case k: True
    show ?thesis
    proof (cases "workers s ! k")
      case (Awaiting cur)
      show ?thesis
      proof (cases "tasks ! cur")
        case (Fulfils v)
        have "results (step tasks ev s) = (results s)[cur := Some v]"
          using Settle k Awaiting Fulfils by (simp add: Let_def)
        with k Awaiting Fulfils show ?thesis by blast
      next
        case (Rejects e)
        then show ?thesis using Settle k Awaiting by simp
      qed
    qed (use Settle k in simp_all)
  qed
qed

lemma results_kept_step:
  assumes inv: "pool_inv tasks s" and i: "i < length tasks" and v: "results s ! i = Some v"
  shows "results (step tasks ev s) ! i = Some v"
proof -
  note I = pool_invD [OF inv]
  from results_step [of tasks ev s] show ?thesis
  proof
    assume "results (step tasks ev s) = results s"
    with v show ?thesis by simp
  next
    assume "\<exists>k cur u. k < length (workers s) \<and> workers s ! k = Awaiting cur \<and>
      tasks ! cur = Fulfils u \<and> results (step tasks ev s) = (results s)[cur := Some u]"
    then obtain k cur u where *: "tasks ! cur = Fulfils u"
      "results (step tasks ev s) = (results s)[cur := Some u]" by blast
    show ?thesis
    proof (cases "i = cur")
      case True
      with I(3) [OF i v] * have "u = v" by simp
      with * True i I(1) show ?thesis by simp
    next
      case False
      with * v show ?thesis by simp
    qed
  qed
qed

lemma results_kept_run:
  "pool_inv tasks s \<Longrightarrow> i < length tasks \<Longrightarrow> results s ! i = Some v \<Longrightarrow>
   results (run tasks evs s) ! i = Some v"
proof (induction evs arbitrary: s)
  case Nil
  then show ?case by (simp add: run_Nil)
next
  case (Cons ev evs)
  from Cons.IH [OF pool_inv_step [OF Cons.prems(1)] Cons.prems(2)
      results_kept_step [OF Cons.prems]]
  show ?case by (simp add: run_Cons)
qed

lemma join_Rejected_step: "join s = Rejected e \<Longrightarrow> join (step tasks ev s) = Rejected e"
  by (cases ev)
    (simp_all add: Let_def resume_def crash_def next_claim_def split: worker.splits outcome.splits)

lemma join_Rejected_run: "join s = Rejected e \<Longrightarrow> join (run tasks evs s) = Rejected e"
proof (induction evs arbitrary: s)
  case Nil
  then show ?case by (simp add: run_Nil)
next
  case (Cons ev evs)
  from Cons.IH [OF join_Rejected_step [OF Cons.prems]] show ?case by (simp add: run_Cons)
qed

text \<open>A worker whose operation fulfils writes the value into the slot of the operation.\<close>

lemma step_delivers:
  assumes inv: "pool_inv tasks s" and j: "j < length (workers s)"
    and w: "workers s ! j = Awaiting c" and t: "tasks ! c = Fulfils v"
  shows "results (step tasks (Settle j) s) ! c = Some v"
proof -
  note I = pool_invD [OF inv]
  from I(2) [OF j w] I(1) have "c < length (results s)" by simp
  moreover have "results (step tasks (Settle j) s) = (results s)[c := Some v]"
    using j w t by (simp add: Let_def)
  ultimately show ?thesis by simp
qed

subsection \<open>Mutations of the configuration\<close>

text \<open>
  A step of a worker reads the configuration through \<open>THROTTLE_MS\<close> alone.
\<close>

lemma step_live:
  "THROTTLE_MS L = THROTTLE_MS (live s) \<Longrightarrow>
   step tasks (Settle k) (s\<lparr>live := L\<rparr>) = (step tasks (Settle k) s)\<lparr>live := L\<rparr>"
  by (simp add: Let_def resume_def crash_def next_claim_def split: worker.splits outcome.splits)

lemma live_step_Settle: "live (step tasks (Settle k) s) = live s"
  by (simp add: Let_def resume_def crash_def next_claim_def split: worker.splits outcome.splits)

lemma batch_view_step:
  assumes "batch_view s = batch_view s'" "THROTTLE_MS (live s) = THROTTLE_MS (live s')"
  shows "batch_view (step tasks (Settle k) s) = batch_view (step tasks (Settle k) s') \<and>
         THROTTLE_MS (live (step tasks (Settle k) s)) = THROTTLE_MS (live (step tasks (Settle k) s'))"
proof -
  have "s = s'\<lparr>live := live s\<rparr>"
    using assms(1) by (intro pool.equality) (simp_all add: batch_view_def)
  then have "step tasks (Settle k) s = (step tasks (Settle k) s')\<lparr>live := live s\<rparr>"
    using step_live [OF assms(2), of tasks k] by (simp del: step.simps)
  then show ?thesis
    using assms(2) by (simp add: batch_view_def live_step_Settle del: step.simps)
qed

lemma batch_view_run:
  assumes "list_all throttle_free evs"
    and "batch_view s = batch_view s'" "THROTTLE_MS (live s) = THROTTLE_MS (live s')"
  shows "batch_view (run tasks evs s) = batch_view (run tasks (filter is_settle evs) s')"
  using assms
proof (induction evs arbitrary: s s')
  case Nil
  then show ?case by (simp add: run_Nil)
next
  case (Cons ev evs)
  show ?case
  proof (cases ev)
    case (Settle k)
    from batch_view_step [OF Cons.prems(2,3), of tasks k]
    have "batch_view (run tasks evs (step tasks (Settle k) s)) =
          batch_view (run tasks (filter is_settle evs) (step tasks (Settle k) s'))"
      using Cons.IH Cons.prems(1) by simp
    then show ?thesis using Settle by (simp add: run_Cons)
  next
    case (SetConfig c)
    with Cons.prems(1) have c: "c ''THROTTLE_MS'' = None" by simp
    have "batch_view (step tasks (SetConfig c) s) = batch_view s'"
      using Cons.prems(2) by (simp add: batch_view_def)
    moreover have "THROTTLE_MS (live (step tasks (SetConfig c) s)) = THROTTLE_MS (live s')"
      using Cons.prems(3) c by (simp add: setConfig_def assigned_def)
    ultimately have "batch_view (run tasks evs (step tasks (SetConfig c) s)) =
          batch_view (run tasks (filter is_settle evs) s')"
      using Cons.IH Cons.prems(1) by simp
    then show ?thesis using SetConfig by (simp add: run_Cons)
  qed
qed

text \<open>The live configuration of a run: the initial one with every mutation applied.\<close>

lemma live_start: "live (runWithConcurrency C tasks limit) = C"
proof (cases "tasks = []")
  case True
  then show ?thesis by (simp add: runWithConcurrency_def)
next
  case False
  then show ?thesis by (simp add: runWithConcurrency_nonempty)
qed


text \<open>A worker that completes an operation sleeps for the live throttle.\<close>

lemma step_throttled:
  assumes "k < length (workers s)" "workers s ! k = Awaiting cur" "tasks ! cur = Fulfils v"
    and "0 < to_number (THROTTLE_MS (live s))"
  shows "workers (step tasks (Settle k) s) ! k = Sleeping (to_number (THROTTLE_MS (live s)))"
  using assms by (simp add: Let_def)

subsection \<open>The number of workers, and evaluation of the examples\<close>

lemma pool_size_clamp:
  "tasks \<noteq> [] \<Longrightarrow>
   pool_size C tasks limit =
     nat (clamp (case limit of Some l \<Rightarrow> l | None \<Rightarrow> to_number (CONCURRENCY C)) 1 (int (length tasks)))"
  by (cases tasks) (auto simp: pool_size_def clamp_def)

lemma upt_small: "[0..<1] = [0]" "[0..<2] = [0, 1]" "[0..<3] = [0, 1, 2]"
  by (simp_all add: upt_rec)

lemmas pool_eval =
  runWithConcurrency_nonempty pool_size_def run_def resume_def crash_def next_claim_def
  all_finished_def Let_def CONFIG_numbers three_tasks_def failing_tasks_def upt_small

lemma step_no_workers:
  "workers s = [] \<Longrightarrow> workers (step tasks ev s) = [] \<and> join (step tasks ev s) = join s"
  by (cases ev) simp_all

lemma run_no_workers:
  "workers s = [] \<Longrightarrow> workers (run tasks evs s) = [] \<and> join (run tasks evs s) = join s"
proof (induction evs arbitrary: s)
  case Nil
  then show ?case by (simp add: run_Nil)
next
  case (Cons ev evs)
  from step_no_workers [OF Cons.prems, of tasks ev] Cons.IH [of "step tasks ev s"]
  show ?case by (simp add: run_Cons)
qed

subsection \<open>What the other workers do, and what a step reads of the batch\<close>

lemma step_other_worker:
  "j \<noteq> k \<Longrightarrow> workers (step tasks (Settle k) t) ! j = workers t ! j"
  by (simp add: Let_def resume_def crash_def next_claim_def split: worker.splits outcome.splits)

lemma workers_step_SetConfig: "workers (step tasks (SetConfig c) t) = workers t"
  by simp

text \<open>A worker that has completed its operation, or wakes up, claims the next index.\<close>

lemma step_claims:
  assumes "j < length (workers t)"
    and "(\<exists>c v. workers t ! j = Awaiting c \<and> tasks ! c = Fulfils v \<and>
            \<not> 0 < to_number (THROTTLE_MS (live t))) \<or>
         (\<exists>ms. workers t ! j = Sleeping ms)"
  shows "cursor (step tasks (Settle j) t) = cursor t + 1 \<and>
         workers (step tasks (Settle j) t) ! j =
           (if cursor t < length tasks then Awaiting (cursor t) else Finished)"
  using assms by (auto simp: Let_def resume_def next_claim_def)

text \<open>A worker crashes only when the operation it awaits rejects.\<close>

lemma step_Crashed_origin:
  assumes "j < length (workers t)" "workers (step tasks ev t) ! j = Crashed e"
  shows "workers t ! j = Crashed e \<or>
         (ev = Settle j \<and> (\<exists>c. workers t ! j = Awaiting c \<and> tasks ! c = Rejects e))"
proof (cases ev)
  case (SetConfig c)
  with assms show ?thesis by simp
next
  case (Settle k)
  show ?thesis
  proof (cases "j = k")
    case False
    with assms Settle step_other_worker [of j k tasks t] show ?thesis by simp
  next
    case True
    with assms Settle show ?thesis
      by (auto simp: Let_def resume_def crash_def next_claim_def
          split: worker.splits outcome.splits if_splits)
  qed
qed

text \<open>A worker finishes only when it finds the cursor past the batch.\<close>

lemma step_Finished_origin:
  assumes "j < length (workers t)" "workers (step tasks ev t) ! j = Finished"
  shows "workers t ! j = Finished \<or> (ev = Settle j \<and> length tasks \<le> cursor t)"
proof (cases ev)
  case (SetConfig c)
  with assms show ?thesis by simp
next
  case (Settle k)
  show ?thesis
  proof (cases "j = k")
    case False
    with assms Settle step_other_worker [of j k tasks t] show ?thesis by simp
  next
    case True
    with assms Settle show ?thesis
      by (auto simp: Let_def resume_def crash_def next_claim_def
          split: worker.splits outcome.splits if_splits)
  qed
qed

text \<open>Once every worker has settled, every fulfilling operation that was claimed is written.\<close>

lemma settled_delivered:
  assumes inv: "pool_inv tasks t" and q: "list_all settled (workers t)"
    and i: "i < length tasks" "i < cursor t" and f: "tasks ! i = Fulfils v"
  shows "results t ! i = Some v"
proof -
  note I = pool_invD [OF inv]
  have "results t ! i \<noteq> None"
  proof
    assume "results t ! i = None"
    from I(4) [OF i(2) i(1) this] obtain k where k: "k < length (workers t)"
      "workers t ! k = Awaiting i \<or> (\<exists>e. workers t ! k = Crashed e \<and> tasks ! i = Rejects e)"
      by blast
    from q k(1) have "settled (workers t ! k)" by (simp add: list_all_length)
    with k(2) f show False by auto
  qed
  then obtain u where u: "results t ! i = Some u" by auto
  from I(3) [OF i(1) u] f u show ?thesis by simp
qed

lemma finished_delivered:
  assumes inv: "pool_inv tasks t" and q: "list_all settled (workers t)"
    and fin: "j < length (workers t)" "workers t ! j = Finished"
    and i: "i < length tasks" and f: "tasks ! i = Fulfils v"
  shows "results t ! i = Some v"
proof -
  from pool_invD(5) [OF inv fin] i have "i < cursor t" by simp
  from settled_delivered [OF inv q i this f] show ?thesis .
qed









subsection \<open>The claims on the pool\<close>

text \<open>
  C1. Take any batch, any limit (or none), any configuration, and any sequence of
  events, that is any order in which operations complete, timers fire and
  \<^verbatim>\<open>setConfig\<close> is called. Whenever the call has returned, the returned array has the
  length of the batch and slot \<open>i\<close> holds the value operation \<open>i\<close> fulfilled with. And
  the call does return when no operation rejects: it has returned as soon as every
  worker has settled, and from every point of a run the events can go on until it has.
\<close>

theorem results_in_batch_order:
  "(\<forall>rs. join (run tasks evs (runWithConcurrency C tasks limit)) = Fulfilled rs \<longrightarrow>
      length rs = length tasks \<and> (\<forall>i < length tasks. \<exists>v. tasks ! i = Fulfils v \<and> rs ! i = Some v)) \<and>
   ((\<forall>i < length tasks. \<exists>v. tasks ! i = Fulfils v) \<longrightarrow>
      (list_all settled (workers (run tasks evs (runWithConcurrency C tasks limit))) \<longrightarrow>
         (\<exists>rs. join (run tasks evs (runWithConcurrency C tasks limit)) = Fulfilled rs)) \<and>
      (\<exists>rest rs. join (run tasks (evs @ rest) (runWithConcurrency C tasks limit)) = Fulfilled rs))"
proof -
  let ?s = "run tasks evs (runWithConcurrency C tasks limit)"
  have inv: "pool_inv tasks ?s" by (rule pool_inv_reachable)
  have a: "\<forall>rs. join ?s = Fulfilled rs \<longrightarrow>
      length rs = length tasks \<and> (\<forall>i < length tasks. \<exists>v. tasks ! i = Fulfils v \<and> rs ! i = Some v)"
    using fulfilled_results [OF inv] by blast
  have b: "\<exists>rs. join ?s = Fulfilled rs"
    if "\<forall>i < length tasks. \<exists>v. tasks ! i = Fulfils v" "list_all settled (workers ?s)"
    using settled_fulfilled [OF inv that] .
  have c: "\<exists>rest rs. join (run tasks (evs @ rest) (runWithConcurrency C tasks limit)) = Fulfilled rs"
    if ok: "\<forall>i < length tasks. \<exists>v. tasks ! i = Fulfils v"
  proof -
    from drain [of tasks ?s] obtain rest where
      "list_all settled (workers (run tasks (evs @ rest) (runWithConcurrency C tasks limit)))"
      by (auto simp: run_append)
    from settled_fulfilled [OF pool_inv_reachable ok this] show ?thesis by blast
  qed
  from a b c show ?thesis by blast
qed

text \<open>
  The theorem on a batch of three with two workers, where operations 1 and 2 complete
  before operation 0.
\<close>

theorem results_in_batch_order_witness:
  "join (run three_tasks [Settle 1, Settle 1, Settle 0] (runWithConcurrency CONFIG three_tasks (Some 2))) =
     Fulfilled [Some 10, Some 20, Some 30] \<and>
   length [Some 10, Some 20, Some (30::nat)] = length three_tasks \<and>
   (\<exists>v. three_tasks ! 0 = Fulfils v \<and> [Some 10, Some 20, Some 30] ! 0 = Some v) \<and>
   (\<exists>rest rs. join (run three_tasks ([Settle 1] @ rest) (runWithConcurrency CONFIG three_tasks (Some 2))) =
      Fulfilled rs)"
proof -
  have j: "join (run three_tasks [Settle 1, Settle 1, Settle 0]
              (runWithConcurrency CONFIG three_tasks (Some 2))) =
           Fulfilled [Some 10, Some 20, Some 30]"
    by (simp add: pool_eval)
  have ok: "\<forall>i < length three_tasks. \<exists>v. three_tasks ! i = Fulfils v"
    by (simp add: three_tasks_def nth_Cons split: nat.splits)
  have i: "0 < length three_tasks" by (simp add: three_tasks_def)
  from results_in_batch_order [of three_tasks "[Settle 1, Settle 1, Settle 0]" CONFIG "Some 2"] j i
  have a: "length [Some 10, Some 20, Some (30::nat)] = length three_tasks \<and>
     (\<exists>v. three_tasks ! 0 = Fulfils v \<and> [Some 10, Some 20, Some 30] ! 0 = Some v)"
    by blast
  from results_in_batch_order [of three_tasks "[Settle 1]" CONFIG "Some 2"] ok
  have b: "\<exists>rest rs. join (run three_tasks ([Settle 1] @ rest)
      (runWithConcurrency CONFIG three_tasks (Some 2))) = Fulfilled rs"
    by blast
  from j a b show ?thesis by blast
qed

text \<open>
  C2. Take any state \<open>s\<close> that a run of the pool reaches, and a worker \<open>k\<close> that awaits
  an operation which rejects with \<open>e\<close>. When that operation settles, the call rejects
  with \<open>e\<close>, unless it has rejected before with the failure of an earlier operation;
  either way it is rejected with the failure of an operation of the batch and stays
  rejected with the same failure for the rest of the run. Worker \<open>k\<close> stops. Nothing is
  cancelled or rolled back: the result array, the cursor and every other worker are as
  they were, and a slot that was written keeps its value for the rest of the run. The
  other workers go on as if nothing had failed, at every later point of the run: a
  worker that awaits a fulfilling operation writes its slot when the operation
  completes; it then claims the next index, the cursor moving on by one, and starts
  that operation, or finishes if the cursor is past the batch (after the pause, when the
  throttle is positive); a worker stops only because the operation it awaits itself
  rejects, and finishes only because it finds the cursor past the batch. So when all
  workers have settled, every fulfilling operation that was claimed has its slot
  written, and if a worker has finished, every fulfilling operation of the batch has.
  And the workers can always run until all have settled.
\<close>

theorem failure_propagates:
  assumes s: "s = run tasks evs (runWithConcurrency C tasks limit)"
    and k: "k < length (workers s)"
    and w: "workers s ! k = Awaiting cur"
    and t: "tasks ! cur = Rejects e"
  shows "join (step tasks (Settle k) s) = (if join s = Pending then Rejected e else join s) \<and>
         (\<exists>e'. join (step tasks (Settle k) s) = Rejected e' \<and> Rejects e' \<in> set tasks) \<and>
         (\<forall>rest. join (run tasks rest (step tasks (Settle k) s)) = join (step tasks (Settle k) s)) \<and>
         results (step tasks (Settle k) s) = results s \<and>
         cursor (step tasks (Settle k) s) = cursor s \<and>
         workers (step tasks (Settle k) s) ! k = Crashed e \<and>
         (\<forall>j. j \<noteq> k \<longrightarrow> workers (step tasks (Settle k) s) ! j = workers s ! j) \<and>
         (\<forall>rest i v. i < length tasks \<and> results s ! i = Some v \<longrightarrow>
            results (run tasks rest (step tasks (Settle k) s)) ! i = Some v) \<and>
         (\<forall>rest j c v. j < length (workers s) \<and>
            workers (run tasks rest (step tasks (Settle k) s)) ! j = Awaiting c \<and>
            tasks ! c = Fulfils v \<longrightarrow>
            results (step tasks (Settle j) (run tasks rest (step tasks (Settle k) s))) ! c = Some v) \<and>
         (\<forall>rest j. j < length (workers s) \<and>
            ((\<exists>c v. workers (run tasks rest (step tasks (Settle k) s)) ! j = Awaiting c \<and>
                tasks ! c = Fulfils v \<and>
                \<not> 0 < to_number (THROTTLE_MS (live (run tasks rest (step tasks (Settle k) s))))) \<or>
             (\<exists>ms. workers (run tasks rest (step tasks (Settle k) s)) ! j = Sleeping ms)) \<longrightarrow>
            cursor (step tasks (Settle j) (run tasks rest (step tasks (Settle k) s))) =
              cursor (run tasks rest (step tasks (Settle k) s)) + 1 \<and>
            workers (step tasks (Settle j) (run tasks rest (step tasks (Settle k) s))) ! j =
              (if cursor (run tasks rest (step tasks (Settle k) s)) < length tasks
               then Awaiting (cursor (run tasks rest (step tasks (Settle k) s)))
               else Finished)) \<and>
         (\<forall>rest j c v. j < length (workers s) \<and>
            workers (run tasks rest (step tasks (Settle k) s)) ! j = Awaiting c \<and>
            tasks ! c = Fulfils v \<and>
            0 < to_number (THROTTLE_MS (live (run tasks rest (step tasks (Settle k) s)))) \<longrightarrow>
            workers (step tasks (Settle j) (run tasks rest (step tasks (Settle k) s))) ! j =
              Sleeping (to_number (THROTTLE_MS (live (run tasks rest (step tasks (Settle k) s)))))) \<and>
         (\<forall>rest ev j e'. j < length (workers s) \<and>
            workers (step tasks ev (run tasks rest (step tasks (Settle k) s))) ! j = Crashed e' \<longrightarrow>
            workers (run tasks rest (step tasks (Settle k) s)) ! j = Crashed e' \<or>
            (ev = Settle j \<and>
             (\<exists>c. workers (run tasks rest (step tasks (Settle k) s)) ! j = Awaiting c \<and>
                  tasks ! c = Rejects e'))) \<and>
         (\<forall>rest ev j. j < length (workers s) \<and>
            workers (step tasks ev (run tasks rest (step tasks (Settle k) s))) ! j = Finished \<longrightarrow>
            workers (run tasks rest (step tasks (Settle k) s)) ! j = Finished \<or>
            (ev = Settle j \<and> length tasks \<le> cursor (run tasks rest (step tasks (Settle k) s)))) \<and>
         (\<forall>rest i v. list_all settled (workers (run tasks rest (step tasks (Settle k) s))) \<and>
            i < length tasks \<and> tasks ! i = Fulfils v \<and>
            (i < cursor (run tasks rest (step tasks (Settle k) s)) \<or>
             (\<exists>j < length (workers s).
                workers (run tasks rest (step tasks (Settle k) s)) ! j = Finished)) \<longrightarrow>
            results (run tasks rest (step tasks (Settle k) s)) ! i = Some v) \<and>
         (\<exists>rest. list_all settled (workers (run tasks rest (step tasks (Settle k) s))))"
proof -
  define s' where "s' = step tasks (Settle k) s"
  have inv: "pool_inv tasks s" unfolding s by (rule pool_inv_reachable)
  note I = pool_invD [OF inv]
  have eq: "s' = crash k e s" unfolding s'_def using k w t by simp
  have inv': "pool_inv tasks s'" unfolding s'_def by (rule pool_inv_step [OF inv])
  have invr: "pool_inv tasks (run tasks rest s')" for rest by (rule pool_inv_run [OF inv'])
  have len0: "length (workers s') = length (workers s)" by (simp add: eq crash_def)
  have len: "length (workers (run tasks rest s')) = length (workers s)" for rest
    by (simp add: len0)
  have 1: "join s' = (if join s = Pending then Rejected e else join s)"
    by (simp add: eq crash_def)
  have nf: "\<not> all_finished (workers s)" using not_all_finished [OF k] w by simp
  have "\<exists>e'. join s' = Rejected e'"
  proof (cases "join s")
    case (Fulfilled rs)
    from I(8) [OF this] nf show ?thesis by simp
  qed (simp_all add: 1)
  then obtain e' where e': "join s' = Rejected e'" by blast
  from pool_invD(10) [OF inv' e'] e'
  have 2: "\<exists>e'. join s' = Rejected e' \<and> Rejects e' \<in> set tasks" by blast
  have 3: "\<forall>rest. join (run tasks rest s') = join s'"
    using e' join_Rejected_run by metis
  have 4: "results s' = results s" "cursor s' = cursor s" "workers s' ! k = Crashed e"
    "\<forall>j. j \<noteq> k \<longrightarrow> workers s' ! j = workers s ! j"
    using k by (simp_all add: eq crash_def)
  have 5: "\<forall>rest i v. i < length tasks \<and> results s ! i = Some v \<longrightarrow>
            results (run tasks rest s') ! i = Some v"
    using results_kept_run [OF inv'] 4(1) by simp
  have 6: "\<forall>rest j c v. j < length (workers s) \<and> workers (run tasks rest s') ! j = Awaiting c \<and>
            tasks ! c = Fulfils v \<longrightarrow>
            results (step tasks (Settle j) (run tasks rest s')) ! c = Some v"
  proof (intro allI impI)
    fix rest j c v
    assume a: "j < length (workers s) \<and> workers (run tasks rest s') ! j = Awaiting c \<and>
            tasks ! c = Fulfils v"
    have j: "j < length (workers (run tasks rest s'))" using a by (simp add: len0)
    from a have w: "workers (run tasks rest s') ! j = Awaiting c" and t: "tasks ! c = Fulfils v"
      by simp_all
    show "results (step tasks (Settle j) (run tasks rest s')) ! c = Some v"
      by (rule step_delivers [OF invr j w t])
  qed
  have 7: "\<forall>rest j. j < length (workers s) \<and>
            ((\<exists>c v. workers (run tasks rest s') ! j = Awaiting c \<and> tasks ! c = Fulfils v \<and>
                \<not> 0 < to_number (THROTTLE_MS (live (run tasks rest s')))) \<or>
             (\<exists>ms. workers (run tasks rest s') ! j = Sleeping ms)) \<longrightarrow>
            cursor (step tasks (Settle j) (run tasks rest s')) = cursor (run tasks rest s') + 1 \<and>
            workers (step tasks (Settle j) (run tasks rest s')) ! j =
              (if cursor (run tasks rest s') < length tasks
               then Awaiting (cursor (run tasks rest s')) else Finished)"
  proof (intro allI impI)
    fix rest j
    assume a: "j < length (workers s) \<and>
            ((\<exists>c v. workers (run tasks rest s') ! j = Awaiting c \<and> tasks ! c = Fulfils v \<and>
                \<not> 0 < to_number (THROTTLE_MS (live (run tasks rest s')))) \<or>
             (\<exists>ms. workers (run tasks rest s') ! j = Sleeping ms))"
    then have j: "j < length (workers (run tasks rest s'))" by (simp add: len0)
    from a have b: "(\<exists>c v. workers (run tasks rest s') ! j = Awaiting c \<and> tasks ! c = Fulfils v \<and>
                \<not> 0 < to_number (THROTTLE_MS (live (run tasks rest s')))) \<or>
             (\<exists>ms. workers (run tasks rest s') ! j = Sleeping ms)" by blast
    show "cursor (step tasks (Settle j) (run tasks rest s')) = cursor (run tasks rest s') + 1 \<and>
            workers (step tasks (Settle j) (run tasks rest s')) ! j =
              (if cursor (run tasks rest s') < length tasks
               then Awaiting (cursor (run tasks rest s')) else Finished)"
      by (rule step_claims [OF j b])
  qed
  have 8: "\<forall>rest j c v. j < length (workers s) \<and>
            workers (run tasks rest s') ! j = Awaiting c \<and> tasks ! c = Fulfils v \<and>
            0 < to_number (THROTTLE_MS (live (run tasks rest s'))) \<longrightarrow>
            workers (step tasks (Settle j) (run tasks rest s')) ! j =
              Sleeping (to_number (THROTTLE_MS (live (run tasks rest s'))))"
    using step_throttled len by metis
  have 9: "\<forall>rest ev j e'. j < length (workers s) \<and>
            workers (step tasks ev (run tasks rest s')) ! j = Crashed e' \<longrightarrow>
            workers (run tasks rest s') ! j = Crashed e' \<or>
            (ev = Settle j \<and> (\<exists>c. workers (run tasks rest s') ! j = Awaiting c \<and> tasks ! c = Rejects e'))"
    using step_Crashed_origin len by metis
  have 10: "\<forall>rest ev j. j < length (workers s) \<and>
            workers (step tasks ev (run tasks rest s')) ! j = Finished \<longrightarrow>
            workers (run tasks rest s') ! j = Finished \<or>
            (ev = Settle j \<and> length tasks \<le> cursor (run tasks rest s'))"
    using step_Finished_origin len by metis
  have 11: "\<forall>rest i v. list_all settled (workers (run tasks rest s')) \<and>
            i < length tasks \<and> tasks ! i = Fulfils v \<and>
            (i < cursor (run tasks rest s') \<or>
             (\<exists>j < length (workers s). workers (run tasks rest s') ! j = Finished)) \<longrightarrow>
            results (run tasks rest s') ! i = Some v"
  proof (intro allI impI)
    fix rest i v
    assume a: "list_all settled (workers (run tasks rest s')) \<and>
            i < length tasks \<and> tasks ! i = Fulfils v \<and>
            (i < cursor (run tasks rest s') \<or>
             (\<exists>j < length (workers s). workers (run tasks rest s') ! j = Finished))"
    then have q: "list_all settled (workers (run tasks rest s'))" and i: "i < length tasks"
      and f: "tasks ! i = Fulfils v" by simp_all
    from a have "i < cursor (run tasks rest s') \<or>
             (\<exists>j < length (workers s). workers (run tasks rest s') ! j = Finished)" by blast
    then show "results (run tasks rest s') ! i = Some v"
    proof
      assume "i < cursor (run tasks rest s')"
      from settled_delivered [OF invr q i this f] show ?thesis .
    next
      assume "\<exists>j < length (workers s). workers (run tasks rest s') ! j = Finished"
      then obtain j where j: "j < length (workers (run tasks rest s'))"
        "workers (run tasks rest s') ! j = Finished" by (auto simp: len0)
      from finished_delivered [OF invr q j i f] show ?thesis .
    qed
  qed
  have 12: "\<exists>rest. list_all settled (workers (run tasks rest s'))" by (rule drain)
  from 1 2 3 4 5 6 7 8 9 10 11 12 show ?thesis unfolding s'_def by blast
qed

text \<open>
  The theorem on a batch of three whose operation 1 rejects, with two workers:
  operation 1 settles first and the call rejects; worker 0 is still awaiting
  operation 0, writes slot 0 afterwards, claims operation 2, and writes slot 2. The run
  ends with the results \<open>[10, absent, 30]\<close>.
\<close>

theorem failure_propagates_witness:
  "join (step failing_tasks (Settle 1) (runWithConcurrency CONFIG failing_tasks (Some 2))) =
     Rejected failed_to_fetch \<and>
   workers (step failing_tasks (Settle 1) (runWithConcurrency CONFIG failing_tasks (Some 2))) =
     [Awaiting 0, Crashed failed_to_fetch] \<and>
   results (step failing_tasks (Settle 0)
     (step failing_tasks (Settle 1) (runWithConcurrency CONFIG failing_tasks (Some 2)))) ! 0 = Some 10 \<and>
   workers (step failing_tasks (Settle 0)
     (step failing_tasks (Settle 1) (runWithConcurrency CONFIG failing_tasks (Some 2)))) ! 0 = Awaiting 2 \<and>
   workers (run failing_tasks [Settle 0, Settle 0]
     (step failing_tasks (Settle 1) (runWithConcurrency CONFIG failing_tasks (Some 2)))) =
     [Finished, Crashed failed_to_fetch] \<and>
   results (run failing_tasks [Settle 0, Settle 0]
     (step failing_tasks (Settle 1) (runWithConcurrency CONFIG failing_tasks (Some 2)))) =
     [Some 10, None, Some 30] \<and>
   results (run failing_tasks [Settle 0, Settle 0]
     (step failing_tasks (Settle 1) (runWithConcurrency CONFIG failing_tasks (Some 2)))) ! 2 = Some 30 \<and>
   join (run failing_tasks [Settle 0, Settle 0]
     (step failing_tasks (Settle 1) (runWithConcurrency CONFIG failing_tasks (Some 2)))) =
     Rejected failed_to_fetch"
proof -
  let ?s = "runWithConcurrency CONFIG failing_tasks (Some 2)"
  let ?s' = "step failing_tasks (Settle 1) ?s"
  let ?t = "run failing_tasks [Settle 0, Settle 0] ?s'"
  have s: "?s = run failing_tasks [] ?s" by (simp add: run_Nil)
  have k: "1 < length (workers ?s)" by (simp add: pool_eval)
  have w: "workers ?s ! 1 = Awaiting 1" by (simp add: pool_eval)
  have ws: "workers ?s = [Awaiting 0, Awaiting 1]" by (simp add: pool_eval)
  have k0: "0 < length (workers ?s)" by (simp add: pool_eval)
  have t: "failing_tasks ! 1 = Rejects failed_to_fetch" by (simp add: failing_tasks_def)
  have t0: "failing_tasks ! 0 = Fulfils 10" by (simp add: failing_tasks_def)
  have t2: "failing_tasks ! 2 = Fulfils 30" "2 < length failing_tasks"
    by (simp_all add: failing_tasks_def)
  have p: "join ?s = Pending" by (simp add: pool_eval)
  have c: "cursor ?s = 2" by (simp add: pool_eval)
  have th: "\<not> 0 < to_number (THROTTLE_MS (live ?s'))"
    by (simp add: live_step_Settle live_start CONFIG_numbers del: step.simps)
  note F = failure_propagates [OF s k w t]
  from F p have 1: "join ?s' = Rejected failed_to_fetch"
    by (simp del: step.simps)
  have l: "length (workers ?s') = 2" by (simp add: ws del: step.simps)
  from F ws have "workers ?s' ! 0 = Awaiting 0" "workers ?s' ! 1 = Crashed failed_to_fetch"
    by (simp_all del: step.simps)
  with l have 2: "workers ?s' = [Awaiting 0, Crashed failed_to_fetch]"
    by (simp add: list_eq_iff_nth_eq nth_Cons less_Suc_eq del: step.simps split: nat.splits)
  from F have "\<forall>rest j c v. j < length (workers ?s) \<and>
      workers (run failing_tasks rest ?s') ! j = Awaiting c \<and>
      failing_tasks ! c = Fulfils v \<longrightarrow>
      results (step failing_tasks (Settle j) (run failing_tasks rest ?s')) ! c = Some v"
    by (elim conjE) assumption
  from this [rule_format, of 0 "[]" 0 10] k0 2 t0
  have 3: "results (step failing_tasks (Settle 0) ?s') ! 0 = Some 10"
    by (simp add: run_Nil del: step.simps)
  from F have "\<forall>rest j. j < length (workers ?s) \<and>
            ((\<exists>c v. workers (run failing_tasks rest ?s') ! j = Awaiting c \<and>
                failing_tasks ! c = Fulfils v \<and>
                \<not> 0 < to_number (THROTTLE_MS (live (run failing_tasks rest ?s')))) \<or>
             (\<exists>ms. workers (run failing_tasks rest ?s') ! j = Sleeping ms)) \<longrightarrow>
            cursor (step failing_tasks (Settle j) (run failing_tasks rest ?s')) =
              cursor (run failing_tasks rest ?s') + 1 \<and>
            workers (step failing_tasks (Settle j) (run failing_tasks rest ?s')) ! j =
              (if cursor (run failing_tasks rest ?s') < length failing_tasks
               then Awaiting (cursor (run failing_tasks rest ?s'))
               else Finished)"
    by (elim conjE) assumption
  from this [rule_format, of 0 "[]"] k0 2 t0 th F c t2
  have 4: "workers (step failing_tasks (Settle 0) ?s') ! 0 = Awaiting 2"
    by (simp add: run_Nil del: step.simps)
  have 5: "workers ?t = [Finished, Crashed failed_to_fetch]" by (simp add: pool_eval)
  from F have "\<forall>rest. join (run failing_tasks rest ?s') = join ?s'" by (elim conjE) assumption
  with 1 have 7: "join ?t = Rejected failed_to_fetch" by simp
  have q: "list_all settled (workers ?t)" unfolding 5 by simp
  from F have "\<forall>rest i v. list_all settled (workers (run failing_tasks rest ?s')) \<and>
            i < length failing_tasks \<and> failing_tasks ! i = Fulfils v \<and>
            (i < cursor (run failing_tasks rest ?s') \<or>
             (\<exists>j < length (workers ?s).
                workers (run failing_tasks rest ?s') ! j = Finished)) \<longrightarrow>
            results (run failing_tasks rest ?s') ! i = Some v"
    by (elim conjE) assumption
  note D = this [rule_format, of "[Settle 0, Settle 0]"]
  have "workers ?t ! 0 = Finished" unfolding 5 by simp
  with k0 have fin: "\<exists>j < length (workers ?s). workers ?t ! j = Finished" by blast
  have d: "results ?t ! i = Some v" if "i < length failing_tasks" "failing_tasks ! i = Fulfils v" for i v
    by (rule D) (use q fin that in blast)
  from d [of 2 30] t2 have 8: "results ?t ! 2 = Some 30" by blast
  have 6: "results ?t = [Some 10, None, Some 30]" by (simp add: pool_eval)
  from 1 2 3 4 5 6 7 8 show ?thesis by blast
qed




text \<open>
  C7. For a non-empty batch the number of workers is
  \<open>clamp(limit ?? CONCURRENCY, 1, length of the batch)\<close>, whatever the limit, and it
  stays so throughout the run.
\<close>

theorem worker_count:
  "tasks \<noteq> [] \<Longrightarrow>
   length (workers (run tasks evs (runWithConcurrency C tasks limit))) =
     nat (clamp (case limit of Some l \<Rightarrow> l | None \<Rightarrow> to_number (CONCURRENCY C)) 1 (int (length tasks)))"
  by (simp add: runWithConcurrency_nonempty pool_size_clamp)

text \<open>
  The theorem on a batch of three: limit 100 gives three workers, limit 0 gives one,
  no limit gives three (the configured concurrency is 6).
\<close>

theorem worker_count_witness:
  "three_tasks \<noteq> [] \<and>
   length (workers (run three_tasks [] (runWithConcurrency CONFIG three_tasks (Some 100)))) = 3 \<and>
   length (workers (run three_tasks [Settle 0] (runWithConcurrency CONFIG three_tasks (Some 0)))) = 1 \<and>
   length (workers (run three_tasks [] (runWithConcurrency CONFIG three_tasks None))) = 3"
proof -
  have h: "three_tasks \<noteq> []" by (simp add: three_tasks_def)
  show ?thesis
    using h worker_count [OF h, of "[]" CONFIG "Some 100"]
      worker_count [OF h, of "[Settle 0]" CONFIG "Some 0"]
      worker_count [OF h, of "[]" CONFIG None]
    by (simp add: clamp_def three_tasks_def CONFIG_numbers)
qed

text \<open>
  C9. On an empty batch the call has returned the empty array when it comes back, no
  worker exists, and no later event changes that.
\<close>

theorem empty_batch:
  "runWithConcurrency C ([] :: 'a outcome list) limit =
     \<lparr>live = C, cursor = 0, results = [], workers = [], join = Fulfilled []\<rparr> \<and>
   workers (run [] evs (runWithConcurrency C ([] :: 'a outcome list) limit)) = [] \<and>
   join (run [] evs (runWithConcurrency C ([] :: 'a outcome list) limit)) = Fulfilled []"
proof -
  have e: "runWithConcurrency C ([] :: 'a outcome list) limit =
     \<lparr>live = C, cursor = 0, results = [], workers = [], join = Fulfilled []\<rparr>"
    by (simp add: runWithConcurrency_def)
  have "workers (runWithConcurrency C ([] :: 'a outcome list) limit) = []" by (simp add: e)
  from run_no_workers [OF this, of "[]" evs] e show ?thesis by simp
qed

text \<open>The theorem on an empty batch with limit 3, followed by two events.\<close>

theorem empty_batch_witness:
  "workers (run [] [Settle 0, SetConfig [''CONCURRENCY'' \<mapsto> JNum 2]]
     (runWithConcurrency CONFIG ([] :: nat outcome list) (Some 3))) = [] \<and>
   join (run [] [Settle 0, SetConfig [''CONCURRENCY'' \<mapsto> JNum 2]]
     (runWithConcurrency CONFIG ([] :: nat outcome list) (Some 3))) = Fulfilled []"
  using empty_batch [of CONFIG "Some 3" "[Settle 0, SetConfig [''CONCURRENCY'' \<mapsto> JNum 2]]"]
  by blast

end
